theory Spec2Isabelle
  imports Main "HOL-Library.Sublist" "HOL-Library.AList"
begin

section \<open>Python strings\<close>

text \<open>
  A Python \<open>str\<close> is modelled as a \<open>string\<close> whose characters are the code points below
  256.  The whitespace of \<open>str.split()\<close> and \<open>str.strip()\<close> in that range is
  \<open>\t \n \v \f \r\<close>, \<open>0x1c\<close> to \<open>0x1f\<close>, the space, \<open>0x85\<close> and \<open>0xa0\<close>; the line
  boundaries of \<open>str.splitlines()\<close> are \<open>\n \v \f \r\<close>, \<open>0x1c\<close> to \<open>0x1e\<close>, \<open>0x85\<close>, and
  \<open>\r\n\<close> counted once.
\<close>

definition is_space :: "char \<Rightarrow> bool" where
  "is_space c =
     (let n = (of_char c :: nat)
      in (9 \<le> n \<and> n \<le> 13) \<or> (28 \<le> n \<and> n \<le> 32) \<or> n = 133 \<or> n = 160)"

definition is_linebreak :: "char \<Rightarrow> bool" where
  "is_linebreak c =
     (let n = (of_char c :: nat)
      in (10 \<le> n \<and> n \<le> 13) \<or> (28 \<le> n \<and> n \<le> 30) \<or> n = 133)"

text \<open>\<open>s.strip()\<close>\<close>

definition strip :: "string \<Rightarrow> string" where
  "strip s = rev (dropWhile is_space (rev (dropWhile is_space s)))"

text \<open>\<open>s.split()\<close>: the maximal runs of characters that are not whitespace. The first
  argument holds the characters of the current run, last one first.\<close>

fun split_from :: "string \<Rightarrow> string \<Rightarrow> string list" where
  "split_from cur [] = (if cur = [] then [] else [rev cur])"
| "split_from cur (c # cs) =
     (if is_space c then (if cur = [] then split_from [] cs else rev cur # split_from [] cs)
      else split_from (c # cur) cs)"

definition split :: "string \<Rightarrow> string list" where
  "split s = split_from [] s"

text \<open>\<open>s.splitlines()\<close>\<close>

fun splitlines_from :: "string \<Rightarrow> string \<Rightarrow> string list" where
  "splitlines_from cur [] = (if cur = [] then [] else [rev cur])"
| "splitlines_from cur [c] =
     (if is_linebreak c then [rev cur] else [rev (c # cur)])"
| "splitlines_from cur (c # d # cs) =
     (if c = CHR 0x0D \<and> d = CHR 0x0A then rev cur # splitlines_from [] cs
      else if is_linebreak c then rev cur # splitlines_from [] (d # cs)
      else splitlines_from (c # cur) (d # cs))"

definition splitlines :: "string \<Rightarrow> string list" where
  "splitlines s = splitlines_from [] s"

text \<open>\<open>sep.join(xs)\<close>\<close>

fun join :: "string \<Rightarrow> string list \<Rightarrow> string" where
  "join sep [] = []"
| "join sep [x] = x"
| "join sep (x # y # ys) = x @ sep @ join sep (y # ys)"

text \<open>\<open>str(n)\<close> of an integer: its decimal digits, after a minus sign when negative.\<close>

definition digit_char :: "nat \<Rightarrow> char" where
  "digit_char d = char_of (48 + d)"

fun digits :: "nat \<Rightarrow> string" where
  "digits n = (if n < 10 then [digit_char n] else digits (n div 10) @ [digit_char (n mod 10)])"

declare digits.simps [simp del]

definition str :: "int \<Rightarrow> string" where
  "str i = (if i < 0 then CHR ''-'' # digits (nat (- i)) else digits (nat i))"

text \<open>\<open>int(s)\<close> of a string without surrounding whitespace: an optional sign, then decimal
  digits, where one underscore may stand between two digits. \<open>None\<close> is the
  \<open>ValueError\<close>.\<close>

definition is_digit :: "char \<Rightarrow> bool" where
  "is_digit c = (let n = (of_char c :: nat) in 48 \<le> n \<and> n \<le> 57)"

definition digit_val :: "char \<Rightarrow> nat" where
  "digit_val c = of_char c - 48"

fun int_digits :: "nat \<Rightarrow> string \<Rightarrow> nat option" where
  "int_digits acc [] = Some acc"
| "int_digits acc [c] = (if is_digit c then Some (acc * 10 + digit_val c) else None)"
| "int_digits acc (c # d # cs) =
     (if is_digit c then int_digits (acc * 10 + digit_val c) (d # cs)
      else if c = CHR ''_'' \<and> is_digit d then int_digits (acc * 10 + digit_val d) cs
      else None)"

definition int_unsigned :: "string \<Rightarrow> nat option" where
  "int_unsigned s = (case s of [] \<Rightarrow> None | c # _ \<Rightarrow> if is_digit c then int_digits 0 s else None)"

definition py_int :: "string \<Rightarrow> int option" where
  "py_int s =
     (case s of
        [] \<Rightarrow> None
      | c # cs \<Rightarrow>
          if c = CHR ''-'' then map_option (\<lambda>n. - int n) (int_unsigned cs)
          else if c = CHR ''+'' then map_option int (int_unsigned cs)
          else map_option int (int_unsigned s))"

text \<open>\<open>range(start, stop, step)\<close> for a positive step.\<close>

function py_range :: "nat \<Rightarrow> nat \<Rightarrow> nat \<Rightarrow> nat list" where
  "py_range i n step = (if 0 < step \<and> i < n then i # py_range (i + step) n step else [])"
  by pat_completeness auto
termination
  by (relation "measure (\<lambda>(i, n, step). n - i)") auto

declare py_range.simps [simp del]

text \<open>The slice \<open>xs[i:j]\<close> for \<open>0 \<le> i \<le> j\<close>.\<close>

definition slice :: "'a list \<Rightarrow> nat \<Rightarrow> nat \<Rightarrow> 'a list" where
  "slice xs i j = take (j - i) (drop i xs)"

subsection \<open>Facts about the string functions\<close>

lemma of_char_digit: "d < 10 \<Longrightarrow> (of_char (digit_char d) :: nat) = 48 + d"
  by (simp add: digit_char_def)

lemma is_digit_digit_char: "d < 10 \<Longrightarrow> is_digit (digit_char d)"
  by (simp add: is_digit_def of_char_digit)

lemma digit_val_digit_char: "d < 10 \<Longrightarrow> digit_val (digit_char d) = d"
  by (simp add: digit_val_def of_char_digit)

lemma digits_all_digit: "\<forall>c \<in> set (digits n). is_digit c"
  by (induction n rule: digits.induct) (subst digits.simps, auto simp: is_digit_digit_char)

lemma digits_nonempty: "digits n \<noteq> []"
  by (subst digits.simps) simp

lemma int_digits_all:
  "\<forall>c \<in> set s. is_digit c \<Longrightarrow> int_digits acc s = Some (foldl (\<lambda>a c. a * 10 + digit_val c) acc s)"
  by (induction acc s rule: int_digits.induct) auto

lemma foldl_digits: "foldl (\<lambda>a c. a * 10 + digit_val c) 0 (digits n) = n"
  by (induction n rule: digits.induct) (subst digits.simps, auto simp: digit_val_digit_char)

lemma int_unsigned_digits: "int_unsigned (digits n) = Some n"
proof -
  obtain c cs where eq: "digits n = c # cs"
    using digits_nonempty[of n] by (cases "digits n") auto
  have "is_digit c"
    using digits_all_digit[of n] eq by simp
  then have "int_unsigned (digits n) = int_digits 0 (digits n)"
    by (simp add: int_unsigned_def eq)
  then show ?thesis
    by (simp add: int_digits_all digits_all_digit foldl_digits)
qed

lemma digits_hd_not_sign: "digits n = c # cs \<Longrightarrow> c \<noteq> CHR ''-'' \<and> c \<noteq> CHR ''+''"
  using digits_all_digit[of n] by (auto simp: is_digit_def)

lemma py_int_str: "py_int (str i) = Some i"
proof (cases "i < 0")
  case True
  then show ?thesis
    by (simp add: py_int_def str_def int_unsigned_digits)
next
  case False
  obtain c cs where eq: "digits (nat i) = c # cs"
    using digits_nonempty[of "nat i"] by (cases "digits (nat i)") auto
  have "py_int (digits (nat i)) = map_option int (int_unsigned (digits (nat i)))"
    using digits_hd_not_sign[OF eq] by (simp add: py_int_def eq)
  with False show ?thesis
    by (simp add: str_def int_unsigned_digits)
qed

lemma str_inj: "str i = str j \<Longrightarrow> i = j"
  by (metis py_int_str option.inject)

lemma split_from_spaces:
  "\<forall>c \<in> set ws. is_space c \<Longrightarrow> split_from cur ws = (if cur = [] then [] else [rev cur])"
  by (induction ws arbitrary: cur) auto

lemma split_from_append_spaces:
  "\<forall>c \<in> set ws. is_space c \<Longrightarrow> split_from cur (s @ ws) = split_from cur s"
  by (induction s arbitrary: cur) (auto simp: split_from_spaces)

lemma split_from_dropWhile: "split_from [] (dropWhile is_space s) = split_from [] s"
  by (induction s) auto

lemma strip_decomp: "\<exists>ws. (\<forall>c \<in> set ws. is_space c) \<and> dropWhile is_space s = strip s @ ws"
proof -
  let ?t = "dropWhile is_space s"
  have "rev ?t = takeWhile is_space (rev ?t) @ dropWhile is_space (rev ?t)"
    by simp
  then have "?t = rev (dropWhile is_space (rev ?t)) @ rev (takeWhile is_space (rev ?t))"
    by (metis rev_append rev_rev_ident)
  moreover have "\<forall>c \<in> set (rev (takeWhile is_space (rev ?t))). is_space c"
    by (auto dest: set_takeWhileD)
  ultimately show ?thesis
    unfolding strip_def by blast
qed

lemma split_strip: "split (strip s) = split s"
proof -
  obtain ws where ws: "\<forall>c \<in> set ws. is_space c" "dropWhile is_space s = strip s @ ws"
    using strip_decomp by blast
  have "split s = split_from [] (dropWhile is_space s)"
    by (simp add: split_def split_from_dropWhile)
  also have "\<dots> = split_from [] (strip s)"
    using ws by (simp add: split_from_append_spaces)
  finally show ?thesis by (simp add: split_def)
qed

lemma split_Nil_iff: "split s = [] \<longleftrightarrow> (\<forall>c \<in> set s. is_space c)"
proof -
  have "split_from cur s = [] \<longleftrightarrow> cur = [] \<and> (\<forall>c \<in> set s. is_space c)" for cur
    by (induction s arbitrary: cur) auto
  then show ?thesis by (simp add: split_def)
qed

lemma dropWhile_all_iff: "(\<forall>x \<in> set (dropWhile P s). P x) \<longleftrightarrow> (\<forall>x \<in> set s. P x)"
proof
  assume a: "\<forall>x \<in> set (dropWhile P s). P x"
  have "dropWhile P s = []"
  proof (rule ccontr)
    assume ne: "dropWhile P s \<noteq> []"
    then have "\<not> P (hd (dropWhile P s))" by (rule hd_dropWhile)
    moreover have "hd (dropWhile P s) \<in> set (dropWhile P s)" using ne by simp
    ultimately show False using a by blast
  qed
  then show "\<forall>x \<in> set s. P x" by (simp add: dropWhile_eq_Nil_conv)
next
  assume "\<forall>x \<in> set s. P x"
  then show "\<forall>x \<in> set (dropWhile P s). P x" by (auto dest: set_dropWhileD)
qed

lemma strip_Nil_iff: "strip s = [] \<longleftrightarrow> (\<forall>c \<in> set s. is_space c)"
  by (simp add: strip_def dropWhile_eq_Nil_conv dropWhile_all_iff)

lemma py_range_4: "py_range (4 * i) (4 * q) 4 = map (\<lambda>k. 4 * k) [i..<q]"
proof (induction "q - i" arbitrary: i)
  case 0
  then show ?case by (subst py_range.simps) simp
next
  case (Suc d)
  then have lt: "i < q" and d: "d = q - Suc i" by auto
  have "py_range (4 * i) (4 * q) 4 = 4 * i # py_range (4 * i + 4) (4 * q) 4"
    using lt by (subst py_range.simps) simp
  also have "4 * i + 4 = 4 * Suc i" by simp
  also have "py_range (4 * Suc i) (4 * q) 4 = map (\<lambda>k. 4 * k) [Suc i..<q]"
    using Suc.hyps(1)[OF d] by simp
  finally show ?case using lt by (simp add: upt_conv_Cons)
qed

section \<open>The label remapper\<close>

text \<open>
  In both merge scripts the body of \<open>process_split\<close> that rewrites one label file is the
  same text, apart from the closure \<open>append_line\<close>.  The closure writes three variables of
  the enclosing scope: the list \<open>out_lines\<close> of the file at hand, the dictionary
  \<open>class_counts\<close> shared by the whole run (a \<open>defaultdict(int)\<close>, kept here in insertion
  order) and the counter \<open>bbox_written\<close> of the split.
\<close>

record tally =
  out_lines :: "string list"
  class_counts :: "(int \<times> nat) list"
  bbox_written :: nat

text \<open>\<open>class_counts[k] += 1\<close> on a \<open>defaultdict(int)\<close>\<close>

fun bump :: "int \<Rightarrow> (int \<times> nat) list \<Rightarrow> (int \<times> nat) list" where
  "bump k [] = [(k, 1)]"
| "bump k ((k', v) # kvs) = (if k = k' then (k', v + 1) # kvs else (k', v) # bump k kvs)"

text \<open>\<open>append_line\<close> of \<open>merge_dataset_1.py\<close>: the tally key is the integer read back from
  the first token, and the target id when that fails (\<open>ValueError\<close>) or when there is no
  token (\<open>IndexError\<close>).\<close>

definition append_line_1 :: "int \<Rightarrow> string list \<Rightarrow> tally \<Rightarrow> tally" where
  "append_line_1 target_id tokens st =
     (let out_line = join '' '' tokens;
          cls_id = (case tokens of
                      [] \<Rightarrow> target_id
                    | t # _ \<Rightarrow> (case py_int t of None \<Rightarrow> target_id | Some n \<Rightarrow> n))
      in st\<lparr>out_lines := out_lines st @ [out_line],
            class_counts := bump cls_id (class_counts st),
            bbox_written := bbox_written st + 1\<rparr>)"

text \<open>\<open>append_line\<close> of \<open>merge_dataset_2.py\<close>: the tally key is the target id.\<close>

definition append_line_2 :: "int \<Rightarrow> string list \<Rightarrow> tally \<Rightarrow> tally" where
  "append_line_2 target_id tokens st =
     st\<lparr>out_lines := out_lines st @ [join '' '' tokens],
        class_counts := bump target_id (class_counts st),
        bbox_written := bbox_written st + 1\<rparr>"

text \<open>The body of \<open>for line in lines\<close>, with the closure as a parameter.\<close>

definition process_line ::
  "(int \<Rightarrow> string list \<Rightarrow> tally \<Rightarrow> tally) \<Rightarrow> int \<Rightarrow> string \<Rightarrow> tally \<Rightarrow> tally" where
  "process_line append_line target_id line0 st =
     (let line = strip line0 in
      if line = [] then st
      else
        let parts = split line in
        if 5 \<le> length parts then
          let vals = tl parts in
          if length vals mod 4 = 0 then
            fold (\<lambda>i. append_line target_id (str target_id # slice vals i (i + 4)))
              (py_range 0 (length vals) 4) st
          else append_line target_id (parts[0 := str target_id]) st
        else if parts \<noteq> [] then append_line target_id (parts[0 := str target_id]) st
        else st)"

text \<open>One label file: its text is cut into lines, every line is processed with a fresh
  \<open>out_lines\<close>, and the text to write is the lines joined by newlines, with a final newline
  when there is a line at all.\<close>

definition remap_text ::
  "(int \<Rightarrow> string list \<Rightarrow> tally \<Rightarrow> tally) \<Rightarrow> int \<Rightarrow> string \<Rightarrow> (int \<times> nat) list \<Rightarrow> nat \<Rightarrow> tally"
  where
  "remap_text append_line target_id text cc bw =
     fold (process_line append_line target_id) (splitlines text)
       \<lparr>out_lines = [], class_counts = cc, bbox_written = bw\<rparr>"

definition written_text :: "string list \<Rightarrow> string" where
  "written_text ls = join [CHR 0x0A] ls @ (if ls \<noteq> [] then [CHR 0x0A] else [])"

section \<open>The file system\<close>

text \<open>
  A path is the list of its components below the file system root, and the file system is
  the list of its entries in the order in which a directory scan reports them.  A file holds
  text (bytes that decode as UTF-8, kept decoded) or bytes that do not decode.  Symbolic
  links, permissions and file times are not modelled.
\<close>

type_synonym path = "string list"

datatype contents = Text string | Bytes string

datatype node = Dir | File contents

type_synonym filesystem = "(path \<times> node) list"

datatype error =
    FileExistsError
  | FileNotFoundError
  | NotADirectoryError
  | IsADirectoryError
  | SameFileError
  | UnicodeDecodeError
  | IndexError
  | KeyError
  | ImportError
  | RecursionError
  | SystemExit nat

definition exists :: "filesystem \<Rightarrow> path \<Rightarrow> bool" where
  "exists fs p = (map_of fs p \<noteq> None)"

definition is_dir :: "filesystem \<Rightarrow> path \<Rightarrow> bool" where
  "is_dir fs p = (map_of fs p = Some Dir)"

definition is_file :: "filesystem \<Rightarrow> path \<Rightarrow> bool" where
  "is_file fs p = (case map_of fs p of Some (File _) \<Rightarrow> True | _ \<Rightarrow> False)"

text \<open>\<open>p.name\<close> and \<open>p.parent\<close>\<close>

definition name :: "path \<Rightarrow> string" where
  "name p = (if p = [] then [] else last p)"

definition parent :: "path \<Rightarrow> path" where
  "parent p = butlast p"

text \<open>A loop whose body may raise: the first error ends it.\<close>

fun foldM :: "('a \<Rightarrow> 's \<Rightarrow> error + 's) \<Rightarrow> 'a list \<Rightarrow> 's \<Rightarrow> error + 's" where
  "foldM f [] s = Inr s"
| "foldM f (x # xs) s = (case f x s of Inl e \<Rightarrow> Inl e | Inr s' \<Rightarrow> foldM f xs s')"

text \<open>\<open>p.mkdir(parents=True, exist_ok=True)\<close>: every missing directory on the way to \<open>p\<close>
  is created, an existing directory is left alone, and a file in the way is an error
  (\<open>FileExistsError\<close> at \<open>p\<close> itself, \<open>NotADirectoryError\<close> above it).\<close>

definition mkdir_step :: "path \<Rightarrow> path \<Rightarrow> filesystem \<Rightarrow> error + filesystem" where
  "mkdir_step p q fs =
     (case map_of fs q of
        Some Dir \<Rightarrow> Inr fs
      | Some (File _) \<Rightarrow> Inl (if q = p then FileExistsError else NotADirectoryError)
      | None \<Rightarrow> Inr (fs @ [(q, Dir)]))"

definition make_dirs :: "filesystem \<Rightarrow> path \<Rightarrow> error + filesystem" where
  "make_dirs fs p = foldM (mkdir_step p) (prefixes p) fs"

text \<open>Opening \<open>p\<close> for writing and storing \<open>c\<close> there.\<close>

definition write_file :: "filesystem \<Rightarrow> path \<Rightarrow> contents \<Rightarrow> error + filesystem" where
  "write_file fs p c =
     (if is_dir fs p then Inl IsADirectoryError
      else if \<not> is_dir fs (parent p) then
        Inl (if exists fs (parent p) then NotADirectoryError else FileNotFoundError)
      else Inr (AList.update p (File c) fs))"

text \<open>\<open>p.write_text(s, encoding="utf-8")\<close> and \<open>p.read_text(encoding="utf-8")\<close>\<close>

definition write_text :: "filesystem \<Rightarrow> path \<Rightarrow> string \<Rightarrow> error + filesystem" where
  "write_text fs p s = write_file fs p (Text s)"

definition read_text :: "filesystem \<Rightarrow> path \<Rightarrow> error + string" where
  "read_text fs p =
     (case map_of fs p of
        None \<Rightarrow> Inl FileNotFoundError
      | Some Dir \<Rightarrow> Inl IsADirectoryError
      | Some (File (Text s)) \<Rightarrow> Inr s
      | Some (File (Bytes _)) \<Rightarrow> Inl UnicodeDecodeError)"

text \<open>\<open>shutil.copy2(src, dst)\<close>: a destination that is a directory stands for the entry of
  the source's name in it; copying a file onto itself is refused.\<close>

definition copy2 :: "filesystem \<Rightarrow> path \<Rightarrow> path \<Rightarrow> error + filesystem" where
  "copy2 fs src dst =
     (let dst' = (if is_dir fs dst then dst @ [name src] else dst) in
      if exists fs src \<and> src = dst' then Inl SameFileError
      else
        case map_of fs src of
          None \<Rightarrow> Inl FileNotFoundError
        | Some Dir \<Rightarrow> Inl IsADirectoryError
        | Some (File c) \<Rightarrow> write_file fs dst' c)"

text \<open>\<open>d.glob("**/*")\<close> and \<open>d.rglob("*")\<close>: everything below the directory \<open>d\<close>, and
  nothing when \<open>d\<close> is not a directory.  \<open>d.glob("**/*.txt")\<close> and \<open>d.rglob("*.txt")\<close> keep
  the entries whose name ends in \<open>.txt\<close>, compared as on a POSIX system, where case
  matters.\<close>

definition rglob_all :: "filesystem \<Rightarrow> path \<Rightarrow> path list" where
  "rglob_all fs d = (if is_dir fs d then filter (strict_prefix d) (map fst fs) else [])"

definition rglob_txt :: "filesystem \<Rightarrow> path \<Rightarrow> path list" where
  "rglob_txt fs d = filter (\<lambda>p. suffix ''.txt'' (name p)) (rglob_all fs d)"

text \<open>\<open>s.replace(old, new)\<close> for one-character strings\<close>

definition replace :: "char \<Rightarrow> char \<Rightarrow> string \<Rightarrow> string" where
  "replace old new s = map (\<lambda>c. if c = old then new else c) s"

definition os_sep :: char where
  "os_sep = CHR ''/''"

section \<open>Copying one image, rewriting one label file\<close>

text \<open>The bodies of the two file loops of \<open>process_split\<close> are the same text in both scripts
  (the label body apart from \<open>append_line\<close>).\<close>

definition copy_image ::
  "path \<Rightarrow> string \<Rightarrow> bool \<Rightarrow> path \<Rightarrow> filesystem \<times> nat \<Rightarrow> error + filesystem \<times> nat" where
  "copy_image out_images pfx dry_run img = (\<lambda>(fs, copied_images).
     let new_name = pfx @ ''_'' @ name img;
         dest = out_images @ [new_name]
     in if \<not> dry_run then
          (case make_dirs fs (parent dest) of
             Inl e \<Rightarrow> Inl e
           | Inr fs1 \<Rightarrow>
               (case copy2 fs1 img dest of
                  Inl e \<Rightarrow> Inl e
                | Inr fs2 \<Rightarrow> Inr (fs2, copied_images + 1)))
        else Inr (fs, copied_images + 1))"

type_synonym label_state = "filesystem \<times> (int \<times> nat) list \<times> nat \<times> nat"

definition remap_label ::
  "(int \<Rightarrow> string list \<Rightarrow> tally \<Rightarrow> tally) \<Rightarrow> path \<Rightarrow> string \<Rightarrow> int \<Rightarrow> bool \<Rightarrow> path \<Rightarrow>
     label_state \<Rightarrow> error + label_state" where
  "remap_label append_line out_labels pfx target_id dry_run lab =
     (\<lambda>(fs, cc, copied_labels, bbox).
       let new_name = pfx @ ''_'' @ name lab;
           dest = out_labels @ [new_name]
       in case (if \<not> dry_run then make_dirs fs (parent dest) else Inr fs) of
            Inl e \<Rightarrow> Inl e
          | Inr fs1 \<Rightarrow>
              (case read_text fs1 lab of
                 Inl e \<Rightarrow> Inl e
               | Inr text \<Rightarrow>
                   let st = remap_text append_line target_id text cc bbox in
                   (case (if \<not> dry_run then write_text fs1 dest (written_text (out_lines st))
                          else Inr fs1) of
                      Inl e \<Rightarrow> Inl e
                    | Inr fs2 \<Rightarrow> Inr (fs2, class_counts st, copied_labels + 1, bbox_written st))))"

section \<open>\<open>merge_dataset_1.py\<close>: one target id per dataset\<close>

definition UNIFIED_NAMES :: "string list" where
  "UNIFIED_NAMES = [''credit_card'', ''id_card'', ''passport'']"

definition DATASETS :: "(string \<times> int) list" where
  "DATASETS =
     [(''credit-cards.yolov11'', 0),
      (''card-live-video.yolov11'', 0),
      (''VKYC.v2i.yolov11'', 1),
      (''passport.yolov11'', 2)]"

record split_stats =
  images_copied :: nat
  labels_copied :: nat
  boxes :: nat

type_synonym stats = "(string \<times> (string \<times> split_stats) list) list"

type_synonym split_result = "(nat \<times> nat \<times> nat) \<times> (int \<times> nat) list \<times> filesystem"

text \<open>The bodies of \<open>for img in image_files\<close> and \<open>for lab in label_files\<close>, which look
  at each path again before using it.\<close>

definition image_step_1 ::
  "path \<Rightarrow> string \<Rightarrow> bool \<Rightarrow> path \<Rightarrow> filesystem \<times> nat \<Rightarrow> error + filesystem \<times> nat" where
  "image_step_1 out_images pfx dry_run img = (\<lambda>(fs, copied_images).
     if is_file fs img then copy_image out_images pfx dry_run img (fs, copied_images)
     else Inr (fs, copied_images))"

definition label_step_1 ::
  "path \<Rightarrow> string \<Rightarrow> int \<Rightarrow> bool \<Rightarrow> path \<Rightarrow> label_state \<Rightarrow> error + label_state" where
  "label_step_1 out_labels pfx target_id dry_run lab = (\<lambda>(fs, st).
     if is_file fs lab then remap_label append_line_1 out_labels pfx target_id dry_run lab (fs, st)
     else Inr (fs, st))"

definition process_split_1 ::
  "filesystem \<Rightarrow> path \<Rightarrow> string \<Rightarrow> path \<Rightarrow> path \<Rightarrow> string \<Rightarrow> int \<Rightarrow> (int \<times> nat) list \<Rightarrow> bool \<Rightarrow>
     error + split_result" where
  "process_split_1 fs dataset_dir split_name out_images out_labels pfx target_id cc dry_run =
     (let images_dir = dataset_dir @ [split_name, ''images''];
          labels_dir = dataset_dir @ [split_name, ''labels''];
          image_files = (if exists fs images_dir then rglob_all fs images_dir else []);
          label_files = (if exists fs labels_dir then rglob_txt fs labels_dir else [])
      in case foldM (image_step_1 out_images pfx dry_run) image_files (fs, 0) of
           Inl e \<Rightarrow> Inl e
         | Inr (fs1, copied_images) \<Rightarrow>
             (case foldM (label_step_1 out_labels pfx target_id dry_run) label_files (fs1, cc, 0, 0) of
                Inl e \<Rightarrow> Inl e
              | Inr (fs2, cc', copied_labels, bbox) \<Rightarrow>
                  Inr ((copied_images, copied_labels, bbox), cc', fs2)))"

definition SPLITS :: "string list" where
  "SPLITS = [''train'', ''valid'', ''test'']"

text \<open>The first loop of \<open>merge\<close>, which no flag guards.\<close>

definition make_output_dirs :: "filesystem \<Rightarrow> path \<Rightarrow> error + filesystem" where
  "make_output_dirs fs out =
     foldM (\<lambda>split_name fs.
        case make_dirs fs (out @ [split_name, ''images'']) of
          Inl e \<Rightarrow> Inl e
        | Inr fs1 \<Rightarrow> make_dirs fs1 (out @ [split_name, ''labels''])) SPLITS fs"

text \<open>\<open>repr\<close> of a list of strings that hold no quote and no backslash\<close>

definition repr_list :: "string list \<Rightarrow> string" where
  "repr_list xs = ''['' @ join '', '' (map (\<lambda>x. [CHR 0x27] @ x @ [CHR 0x27]) xs) @ '']''"

definition yaml_lines :: "string list" where
  "yaml_lines =
     [''train: train/images'',
      ''val: valid/images'',
      ''test: test/images'',
      [],
      ''nc: '' @ str (int (length UNIFIED_NAMES)),
      ''names: '' @ repr_list UNIFIED_NAMES]"

definition write_data_yaml :: "filesystem \<Rightarrow> path \<Rightarrow> bool \<Rightarrow> error + filesystem" where
  "write_data_yaml fs out dry_run =
     (if \<not> dry_run then write_text fs (out @ [''data.yaml'']) (join [CHR 0x0A] yaml_lines @ [CHR 0x0A])
      else Inr fs)"

type_synonym merge_state = "filesystem \<times> stats \<times> (int \<times> nat) list \<times> nat"

type_synonym merge_result = "(stats \<times> (int \<times> nat) list \<times> nat) \<times> filesystem"

definition split_step_1 ::
  "path \<Rightarrow> path \<Rightarrow> string \<Rightarrow> string \<Rightarrow> int \<Rightarrow> bool \<Rightarrow> string \<Rightarrow> merge_state \<Rightarrow> error + merge_state"
  where
  "split_step_1 out ds_path ds_name pfx target_id dry_run split_name = (\<lambda>(fs, stats, cc, total_boxes).
     case process_split_1 fs ds_path split_name (out @ [split_name, ''images''])
            (out @ [split_name, ''labels'']) pfx target_id cc dry_run of
       Inl e \<Rightarrow> Inl e
     | Inr ((ci, cl, bx), cc', fs') \<Rightarrow>
         Inr (fs',
              AList.map_entry ds_name
                (AList.update split_name \<lparr>images_copied = ci, labels_copied = cl, boxes = bx\<rparr>) stats,
              cc', total_boxes + bx))"

definition dataset_step_1 ::
  "path \<Rightarrow> path \<Rightarrow> bool \<Rightarrow> string \<times> int \<Rightarrow> merge_state \<Rightarrow> error + merge_state" where
  "dataset_step_1 root out dry_run = (\<lambda>(ds_name, target_id) (fs, stats, cc, total_boxes).
     let ds_path = root @ [ds_name] in
     if \<not> exists fs ds_path then Inr (fs, stats, cc, total_boxes)
     else
       let pfx = replace CHR ''.'' CHR ''_'' (replace os_sep CHR ''_'' ds_name)
       in foldM (split_step_1 out ds_path ds_name pfx target_id dry_run) SPLITS
            (fs, AList.update ds_name [] stats, cc, total_boxes))"

definition merge_1 :: "filesystem \<Rightarrow> path \<Rightarrow> path \<Rightarrow> bool \<Rightarrow> error + merge_result" where
  "merge_1 fs root out dry_run =
     (case make_output_dirs fs out of
        Inl e \<Rightarrow> Inl e
      | Inr fs1 \<Rightarrow>
          (case foldM (dataset_step_1 root out dry_run) DATASETS (fs1, [], [], 0) of
             Inl e \<Rightarrow> Inl e
           | Inr (fs2, stats, cc, total_boxes) \<Rightarrow>
               (case write_data_yaml fs2 out dry_run of
                  Inl e \<Rightarrow> Inl e
                | Inr fs3 \<Rightarrow> Inr ((stats, cc, total_boxes), fs3))))"

section \<open>\<open>merge_dataset_2.py\<close>: every box becomes id 1\<close>

definition FORCED_TARGET_ID :: int where
  "FORCED_TARGET_ID = 1"

definition SPLIT_ALIASES :: "(string \<times> string list) list" where
  "SPLIT_ALIASES =
     [(''train'', [''train'']),
      (''valid'', [''valid'', ''val'']),
      (''test'', [''test''])]"

definition IMG_EXTS :: "string list" where
  "IMG_EXTS = [''.jpg'', ''.jpeg'', ''.png'', ''.bmp'', ''.webp'', ''.tif'', ''.tiff'']"

text \<open>\<open>s.lower()\<close> on the code points below 256: the letters \<open>A\<close> to \<open>Z\<close>, and the
  capital letters from \<open>0xc0\<close> to \<open>0xde\<close> except the multiplication sign \<open>0xd7\<close>.\<close>

definition lower_char :: "char \<Rightarrow> char" where
  "lower_char c =
     (let n = (of_char c :: nat)
      in if (65 \<le> n \<and> n \<le> 90) \<or> (192 \<le> n \<and> n \<le> 222 \<and> n \<noteq> 215) then char_of (n + 32) else c)"

definition lower :: "string \<Rightarrow> string" where
  "lower s = map lower_char s"

text \<open>\<open>s.rfind(c)\<close>, with \<open>None\<close> for -1\<close>

fun rfind :: "char \<Rightarrow> string \<Rightarrow> nat option" where
  "rfind c [] = None"
| "rfind c (x # xs) =
     (case rfind c xs of Some i \<Rightarrow> Some (i + 1) | None \<Rightarrow> if x = c then Some 0 else None)"

text \<open>\<open>p.suffix\<close> and \<open>p.stem\<close>: the name is cut at its last dot, unless that dot is the
  first or the last character.\<close>

definition path_suffix :: "path \<Rightarrow> string" where
  "path_suffix p =
     (case rfind CHR ''.'' (name p) of
        Some i \<Rightarrow> if 0 < i \<and> i + 1 < length (name p) then drop i (name p) else []
      | None \<Rightarrow> [])"

definition stem :: "path \<Rightarrow> string" where
  "stem p =
     (case rfind CHR ''.'' (name p) of
        Some i \<Rightarrow> if 0 < i \<and> i + 1 < length (name p) then take i (name p) else name p
      | None \<Rightarrow> name p)"

definition sanitize_prefix :: "string \<Rightarrow> string" where
  "sanitize_prefix nm =
     replace CHR ''.'' CHR ''_'' (replace CHR '' '' CHR ''_'' (replace os_sep CHR ''_'' nm))"

fun find_alias :: "filesystem \<Rightarrow> path \<Rightarrow> string list \<Rightarrow> path option \<times> path option" where
  "find_alias fs dataset_dir [] = (None, None)"
| "find_alias fs dataset_dir (alias # aliases) =
     (let images_dir = dataset_dir @ [alias, ''images''];
          labels_dir = dataset_dir @ [alias, ''labels'']
      in if exists fs images_dir \<and> is_dir fs images_dir then
           (Some images_dir, if exists fs labels_dir then Some labels_dir else None)
         else find_alias fs dataset_dir aliases)"

text \<open>A key that \<open>SPLIT_ALIASES\<close> does not hold is a \<open>KeyError\<close>.\<close>

definition find_split_dirs ::
  "filesystem \<Rightarrow> path \<Rightarrow> string \<Rightarrow> error + path option \<times> path option" where
  "find_split_dirs fs dataset_dir split_key =
     (case map_of SPLIT_ALIASES split_key of
        None \<Rightarrow> Inl KeyError
      | Some aliases \<Rightarrow> Inr (find_alias fs dataset_dir aliases))"

definition iter_images :: "filesystem \<Rightarrow> path \<Rightarrow> path list" where
  "iter_images fs images_dir =
     filter (\<lambda>p. is_file fs p \<and> lower (path_suffix p) \<in> set IMG_EXTS) (rglob_all fs images_dir)"

definition iter_label_files :: "filesystem \<Rightarrow> path option \<Rightarrow> path list" where
  "iter_label_files fs labels_dir =
     (case labels_dir of
        None \<Rightarrow> []
      | Some d \<Rightarrow> filter (is_file fs) (rglob_txt fs d))"

text \<open>Pattern globbing is the library's; \<open>resolve_datasets\<close> takes it as a parameter
  \<open>glob fs root pattern\<close>.  \<open>glob_literal\<close> is what it does for a pattern that is one
  component without wildcard characters.\<close>

definition glob_literal :: "filesystem \<Rightarrow> path \<Rightarrow> string \<Rightarrow> path list" where
  "glob_literal fs root pattern = (if exists fs (root @ [pattern]) then [root @ [pattern]] else [])"

text \<open>\<open>root.iterdir()\<close>\<close>

definition iterdir :: "filesystem \<Rightarrow> path \<Rightarrow> error + path list" where
  "iterdir fs d =
     (case map_of fs d of
        None \<Rightarrow> Inl FileNotFoundError
      | Some (File _) \<Rightarrow> Inl NotADirectoryError
      | Some Dir \<Rightarrow> Inr (filter (\<lambda>p. p \<noteq> [] \<and> parent p = d) (map fst fs)))"

text \<open>The test of the loop that fills \<open>usable\<close>, and the loop.\<close>

definition looks_usable :: "filesystem \<Rightarrow> path \<Rightarrow> error + bool" where
  "looks_usable fs d =
     (case find_split_dirs fs d ''train'' of
        Inl e \<Rightarrow> Inl e
      | Inr (ti, _) \<Rightarrow>
          (case find_split_dirs fs d ''valid'' of
             Inl e \<Rightarrow> Inl e
           | Inr (vi, _) \<Rightarrow>
               (case find_split_dirs fs d ''test'' of
                  Inl e \<Rightarrow> Inl e
                | Inr (tei, _) \<Rightarrow> Inr (ti \<noteq> None \<and> vi \<noteq> None \<and> tei \<noteq> None))))"

definition keep_usable :: "filesystem \<Rightarrow> path list \<Rightarrow> error + path list" where
  "keep_usable fs found =
     foldM (\<lambda>d usable.
        case looks_usable fs d of
          Inl e \<Rightarrow> Inl e
        | Inr ok \<Rightarrow> Inr (if ok then usable @ [d] else usable)) found []"

definition resolve_datasets ::
  "(filesystem \<Rightarrow> path \<Rightarrow> string \<Rightarrow> path list) \<Rightarrow> filesystem \<Rightarrow> path \<Rightarrow> string list option \<Rightarrow>
     error + path list" where
  "resolve_datasets glob fs root dataset_globs =
     (case dataset_globs of
        Some (g # gs) \<Rightarrow>
          keep_usable fs (concat (map (\<lambda>pattern. filter (is_dir fs) (glob fs root pattern)) (g # gs)))
      | _ \<Rightarrow>
          (case iterdir fs root of
             Inl e \<Rightarrow> Inl e
           | Inr children \<Rightarrow>
               keep_usable fs
                 (filter (\<lambda>p. is_dir fs p \<and> suffix ''.yolov11'' (lower (name p))) children)))"

definition process_split_2 ::
  "filesystem \<Rightarrow> path \<Rightarrow> string \<Rightarrow> path \<Rightarrow> path \<Rightarrow> string \<Rightarrow> int \<Rightarrow> (int \<times> nat) list \<Rightarrow> bool \<Rightarrow>
     error + split_result" where
  "process_split_2 fs dataset_dir split_key out_images out_labels pfx target_id cc dry_run =
     (case find_split_dirs fs dataset_dir split_key of
        Inl e \<Rightarrow> Inl e
      | Inr (None, _) \<Rightarrow> Inr ((0, 0, 0), cc, fs)
      | Inr (Some images_dir, labels_dir) \<Rightarrow>
          (case foldM (copy_image out_images pfx dry_run) (iter_images fs images_dir) (fs, 0) of
             Inl e \<Rightarrow> Inl e
           | Inr (fs1, copied_images) \<Rightarrow>
               (if labels_dir = None then Inr ((copied_images, 0, 0), cc, fs1)
                else
                  case foldM (remap_label append_line_2 out_labels pfx target_id dry_run)
                         (iter_label_files fs1 labels_dir) (fs1, cc, 0, 0) of
                    Inl e \<Rightarrow> Inl e
                  | Inr (fs2, cc', copied_labels, bbox) \<Rightarrow>
                      Inr ((copied_images, copied_labels, bbox), cc', fs2))))"

definition split_step_2 ::
  "path \<Rightarrow> path \<Rightarrow> string \<Rightarrow> bool \<Rightarrow> string \<Rightarrow> merge_state \<Rightarrow> error + merge_state" where
  "split_step_2 out ds_path pfx dry_run split_name = (\<lambda>(fs, stats, cc, total_boxes).
     case process_split_2 fs ds_path split_name (out @ [split_name, ''images''])
            (out @ [split_name, ''labels'']) pfx FORCED_TARGET_ID cc dry_run of
       Inl e \<Rightarrow> Inl e
     | Inr ((ci, cl, bx), cc', fs') \<Rightarrow>
         Inr (fs',
              AList.map_entry (name ds_path)
                (AList.update split_name \<lparr>images_copied = ci, labels_copied = cl, boxes = bx\<rparr>) stats,
              cc', total_boxes + bx))"

definition dataset_step_2 :: "path \<Rightarrow> bool \<Rightarrow> path \<Rightarrow> merge_state \<Rightarrow> error + merge_state" where
  "dataset_step_2 out dry_run ds_path = (\<lambda>(fs, stats, cc, total_boxes).
     let pfx = sanitize_prefix (name ds_path)
     in foldM (split_step_2 out ds_path pfx dry_run) SPLITS
          (fs, AList.update (name ds_path) [] stats, cc, total_boxes))"

definition merge_2 :: "filesystem \<Rightarrow> path \<Rightarrow> path \<Rightarrow> path list \<Rightarrow> bool \<Rightarrow> error + merge_result" where
  "merge_2 fs root out datasets dry_run =
     (case make_output_dirs fs out of
        Inl e \<Rightarrow> Inl e
      | Inr fs1 \<Rightarrow>
          (case foldM (dataset_step_2 out dry_run) datasets (fs1, [], [], 0) of
             Inl e \<Rightarrow> Inl e
           | Inr (fs2, stats, cc, total_boxes) \<Rightarrow>
               (case write_data_yaml fs2 out dry_run of
                  Inl e \<Rightarrow> Inl e
                | Inr fs3 \<Rightarrow> Inr ((stats, cc, total_boxes), fs3))))"

section \<open>Properties of the label remapper\<close>

subsection \<open>What one line emits\<close>

lemma fold_append_line_1:
  "fold (\<lambda>i. append_line_1 t (str t # f i)) is st =
     st\<lparr>out_lines := out_lines st @ map (\<lambda>i. join '' '' (str t # f i)) is,
        class_counts := (bump t ^^ length is) (class_counts st),
        bbox_written := bbox_written st + length is\<rparr>"
  by (induction "is" arbitrary: st) (simp_all add: append_line_1_def py_int_str funpow_swap1)

lemma fold_append_line_2:
  "fold (\<lambda>i. append_line_2 t (f i)) is st =
     st\<lparr>out_lines := out_lines st @ map (\<lambda>i. join '' '' (f i)) is,
        class_counts := (bump t ^^ length is) (class_counts st),
        bbox_written := bbox_written st + length is\<rparr>"
  by (induction "is" arbitrary: st) (simp_all add: append_line_2_def funpow_swap1)

lemma process_line_chunks:
  assumes len: "5 \<le> length (split line)" and m: "(length (split line) - 1) mod 4 = 0"
  shows "process_line append_line t line st =
           fold (\<lambda>k. append_line t (str t # take 4 (drop (4 * k) (tl (split line)))))
             [0..<(length (split line) - 1) div 4] st"
proof -
  let ?parts = "split line"
  let ?q = "(length ?parts - 1) div 4"
  have ne: "strip line \<noteq> []"
    using len by (auto simp: strip_Nil_iff simp flip: split_Nil_iff)
  have "py_range (4 * 0) (4 * ?q) 4 = map (\<lambda>k. 4 * k) [0..<?q]"
    by (rule py_range_4)
  also have "4 * ?q = length (tl ?parts)"
    using m by (simp add: mod_eq_0_iff_dvd)
  finally have "py_range 0 (length (tl ?parts)) 4 = map (\<lambda>k. 4 * k) [0..<?q]"
    by simp
  then show ?thesis
    using len m ne
    by (simp add: process_line_def split_strip Let_def slice_def fold_map comp_def)
qed

lemma process_line_fallback:
  assumes len: "5 \<le> length (split line)" and m: "(length (split line) - 1) mod 4 \<noteq> 0"
  shows "process_line append_line t line st = append_line t (str t # tl (split line)) st"
proof -
  have ne: "strip line \<noteq> []"
    using len by (auto simp: strip_Nil_iff simp flip: split_Nil_iff)
  obtain p ps where "split line = p # ps"
    using len by (cases "split line") auto
  then show ?thesis
    using len m ne by (simp add: process_line_def split_strip Let_def)
qed

text \<open>
  Claim C2.  A line whose whitespace tokenization has at least 5 tokens, with the number of
  tokens after the first divisible by 4, makes both remappers emit one line per chunk of 4
  value tokens: the target id, then the 4 tokens of the chunk in their order and as they were
  written.  There are (tokens - 1) / 4 such lines, so a line of 9 tokens gives 2.
\<close>

theorem chunked_line_emits_quadruples:
  assumes "5 \<le> length (split line)" and "(length (split line) - 1) mod 4 = 0"
    and "append_line = append_line_1 \<or> append_line = append_line_2"
  shows "out_lines (process_line append_line t line st) =
           out_lines st @
             map (\<lambda>k. join '' '' (str t # take 4 (drop (4 * k) (tl (split line)))))
               [0..<(length (split line) - 1) div 4]
         \<and> length (out_lines (process_line append_line t line st)) =
             length (out_lines st) + (length (split line) - 1) div 4
         \<and> (\<forall>k < (length (split line) - 1) div 4.
               length (take 4 (drop (4 * k) (tl (split line)))) = 4)"
proof -
  have "length (tl (split line)) = 4 * ((length (split line) - 1) div 4)"
    using assms(2) by (simp add: mod_eq_0_iff_dvd)
  then have "\<forall>k < (length (split line) - 1) div 4.
               length (take 4 (drop (4 * k) (tl (split line)))) = 4"
    by auto
  then show ?thesis
    using assms(3)
    by (auto simp: process_line_chunks[OF assms(1,2)] fold_append_line_1 fold_append_line_2)
qed

theorem chunked_line_emits_quadruples_witness:
  "5 \<le> length (split ''3 a b c d e f g h'')
   \<and> (length (split ''3 a b c d e f g h'') - 1) mod 4 = 0
   \<and> out_lines (process_line append_line_1 1 ''3 a b c d e f g h''
        \<lparr>out_lines = [], class_counts = [], bbox_written = 0\<rparr>) = [''1 a b c d'', ''1 e f g h'']"
proof -
  have h1: "5 \<le> length (split ''3 a b c d e f g h'')" by code_simp
  have h2: "(length (split ''3 a b c d e f g h'') - 1) mod 4 = 0" by code_simp
  have ev: "map (\<lambda>k. join '' '' (str 1 # take 4 (drop (4 * k) (tl (split ''3 a b c d e f g h'')))))
               [0..<(length (split ''3 a b c d e f g h'') - 1) div 4] = [''1 a b c d'', ''1 e f g h'']"
    by code_simp
  show ?thesis
    using h1 h2 chunked_line_emits_quadruples[OF h1 h2, of append_line_1 1
        "\<lparr>out_lines = [], class_counts = [], bbox_written = 0\<rparr>"]
    unfolding ev by simp
qed

subsection \<open>The lines of a file, and the tally\<close>

text \<open>The token lists that one line hands to \<open>append_line\<close>, in order.\<close>

definition emitted_tokens :: "int \<Rightarrow> string \<Rightarrow> string list list" where
  "emitted_tokens t line =
     (let parts = split line in
      if parts = [] then []
      else if 5 \<le> length parts \<and> (length parts - 1) mod 4 = 0 then
        map (\<lambda>k. str t # take 4 (drop (4 * k) (tl parts))) [0..<(length parts - 1) div 4]
      else [str t # tl parts])"

lemma process_line_emitted:
  "process_line append_line t line st = fold (append_line t) (emitted_tokens t line) st"
proof (cases "split line = []")
  case True
  then have "strip line = []"
    by (simp add: strip_Nil_iff split_Nil_iff)
  then show ?thesis
    using True by (simp add: process_line_def emitted_tokens_def)
next
  case False
  then have ne: "strip line \<noteq> []"
    by (simp add: strip_Nil_iff split_Nil_iff)
  obtain p ps where ps: "split line = p # ps"
    using False by (cases "split line") auto
  show ?thesis
  proof (cases "5 \<le> length (split line)")
    case len: True
    show ?thesis
    proof (cases "(length (split line) - 1) mod 4 = 0")
      case True
      then show ?thesis
        using len False process_line_chunks[OF len True, of append_line t st]
        by (simp add: emitted_tokens_def fold_map comp_def Let_def)
    next
      case False
      then show ?thesis
        using len ps process_line_fallback[OF len False, of append_line t st]
        by (simp add: emitted_tokens_def)
    qed
  next
    case False
    then show ?thesis
      using ne ps by (simp add: process_line_def split_strip emitted_tokens_def Let_def)
  qed
qed

lemma emitted_tokens_hd: "toks \<in> set (emitted_tokens t line) \<Longrightarrow> \<exists>rest. toks = str t # rest"
  by (auto simp: emitted_tokens_def Let_def split: if_splits)

lemma append_line_1_eq_2: "append_line_1 t (str t # rest) = append_line_2 t (str t # rest)"
  by (rule ext) (simp add: append_line_1_def append_line_2_def py_int_str)

lemma fold_append_line_eq:
  "\<forall>toks \<in> set tokss. \<exists>rest. toks = str t # rest \<Longrightarrow>
     fold (append_line_1 t) tokss st = fold (append_line_2 t) tokss st"
  by (induction tokss arbitrary: st) (auto simp: append_line_1_eq_2)

lemma process_line_1_eq_2: "process_line append_line_1 t = process_line append_line_2 t"
  by (intro ext) (simp add: process_line_emitted fold_append_line_eq emitted_tokens_hd)

lemma remap_text_1_eq_2: "remap_text append_line_1 t text cc bw = remap_text append_line_2 t text cc bw"
  by (simp add: remap_text_def process_line_1_eq_2)

lemma fold_append_line_2_list:
  "fold (append_line_2 t) tokss st =
     st\<lparr>out_lines := out_lines st @ map (join '' '') tokss,
        class_counts := (bump t ^^ length tokss) (class_counts st),
        bbox_written := bbox_written st + length tokss\<rparr>"
  by (induction tokss arbitrary: st) (simp_all add: append_line_2_def funpow_swap1)

lemma process_line_2_effect:
  "process_line append_line_2 t line st =
     st\<lparr>out_lines := out_lines st @ map (join '' '') (emitted_tokens t line),
        class_counts := (bump t ^^ length (emitted_tokens t line)) (class_counts st),
        bbox_written := bbox_written st + length (emitted_tokens t line)\<rparr>"
  by (simp add: process_line_emitted fold_append_line_2_list)

lemma funpow_funpow: "(f ^^ a) ((f ^^ b) x) = (f ^^ (a + b)) x"
  by (simp add: funpow_add)

lemma fold_process_line_2:
  "fold (process_line append_line_2 t) ls st =
     st\<lparr>out_lines := out_lines st @ map (join '' '') (concat (map (emitted_tokens t) ls)),
        class_counts := (bump t ^^ length (concat (map (emitted_tokens t) ls))) (class_counts st),
        bbox_written := bbox_written st + length (concat (map (emitted_tokens t) ls))\<rparr>"
  by (induction ls arbitrary: st) (simp_all add: process_line_2_effect funpow_funpow ac_simps)

lemma remap_text_effect:
  assumes "append_line = append_line_1 \<or> append_line = append_line_2"
  shows "remap_text append_line t text cc bw =
     \<lparr>out_lines = map (join '' '') (concat (map (emitted_tokens t) (splitlines text))),
      class_counts = (bump t ^^ length (concat (map (emitted_tokens t) (splitlines text)))) cc,
      bbox_written = bw + length (concat (map (emitted_tokens t) (splitlines text)))\<rparr>"
proof -
  have "remap_text append_line t text cc bw = remap_text append_line_2 t text cc bw"
    using assms by (auto simp: remap_text_1_eq_2)
  then show ?thesis
    by (simp add: remap_text_def fold_process_line_2)
qed

lemma emitted_tokens_blank: "\<forall>c \<in> set line. is_space c \<Longrightarrow> emitted_tokens t line = []"
  by (simp add: emitted_tokens_def split_Nil_iff)

definition count_total :: "(int \<times> nat) list \<Rightarrow> nat" where
  "count_total cc = sum_list (map snd cc)"

lemma count_total_bump: "count_total (bump k cc) = count_total cc + 1"
  by (induction cc) (auto simp: count_total_def)

lemma count_total_bumps: "count_total ((bump k ^^ n) cc) = count_total cc + n"
  by (induction n) (simp_all add: count_total_bump)

lemma split_from_token:
  "\<forall>c \<in> set tok. \<not> is_space c \<Longrightarrow> split_from cur (tok @ rest) = split_from (rev tok @ cur) rest"
  by (induction tok arbitrary: cur) auto

lemma split_from_join:
  "\<forall>tok \<in> set toks. tok \<noteq> [] \<and> (\<forall>c \<in> set tok. \<not> is_space c) \<Longrightarrow>
     split_from [] (join '' '' toks) = toks"
proof (induction "'' ''" toks rule: join.induct)
  case 1
  then show ?case by simp
next
  case (2 x)
  then show ?case
    using split_from_token[of x "[]" "[]"] by simp
next
  case (3 x y ys)
  have sp: "is_space CHR '' ''" by (simp add: is_space_def)
  have "split_from [] (x @ '' '' @ join '' '' (y # ys)) = split_from (rev x) ('' '' @ join '' '' (y # ys))"
    using 3(2) split_from_token[of x "[]"] by simp
  also have "\<dots> = x # split_from [] (join '' '' (y # ys))"
    using 3(2) sp by simp
  finally show ?case using 3 by simp
qed

lemma split_from_tokens_ok:
  "\<forall>c \<in> set cur. \<not> is_space c \<Longrightarrow>
     \<forall>tok \<in> set (split_from cur s). tok \<noteq> [] \<and> (\<forall>c \<in> set tok. \<not> is_space c)"
proof (induction s arbitrary: cur)
  case Nil
  then show ?case by simp
next
  case (Cons a s)
  have e: "\<forall>tok \<in> set (split_from [] s). tok \<noteq> [] \<and> (\<forall>c \<in> set tok. \<not> is_space c)"
    by (rule Cons.IH) simp
  show ?case
  proof (cases "is_space a")
    case True
    then show ?thesis using e Cons.prems by simp
  next
    case False
    then have "\<forall>c \<in> set (a # cur). \<not> is_space c"
      using Cons.prems by simp
    from Cons.IH[OF this] False show ?thesis by simp
  qed
qed

lemma split_tokens_ok: "tok \<in> set (split s) \<Longrightarrow> tok \<noteq> [] \<and> (\<forall>c \<in> set tok. \<not> is_space c)"
  using split_from_tokens_ok[of "[]" s] by (simp add: split_def)

lemma str_token_ok: "str t \<noteq> [] \<and> (\<forall>c \<in> set (str t). \<not> is_space c)"
proof -
  have "\<not> is_space c" if "is_digit c" for c
    using that by (auto simp: is_digit_def is_space_def Let_def)
  moreover have "\<not> is_space CHR ''-''" by (simp add: is_space_def)
  ultimately show ?thesis
    using digits_all_digit digits_nonempty by (auto simp: str_def)
qed

lemma split_join_emitted:
  assumes "split line = p # ps"
  shows "split (join '' '' (str t # take n (drop m ps))) = str t # take n (drop m ps)"
proof -
  have "\<forall>tok \<in> set ps. tok \<noteq> [] \<and> (\<forall>c \<in> set tok. \<not> is_space c)"
    using split_tokens_ok[of _ line] assms by auto
  then have "\<forall>tok \<in> set (take n (drop m ps)). tok \<noteq> [] \<and> (\<forall>c \<in> set tok. \<not> is_space c)"
    by (meson in_set_dropD in_set_takeD)
  then show ?thesis
    unfolding split_def using str_token_ok[of t] by (intro split_from_join) auto
qed

text \<open>
  Claim C3.  A line of at least 5 tokens whose number of tokens after the first is not
  divisible by 4 makes both remappers emit exactly one line: the target id, then every
  token after the first as it was written.  Reading that line back gives these tokens.
\<close>

theorem fallback_line_keeps_tokens:
  assumes "5 \<le> length (split line)" and "(length (split line) - 1) mod 4 \<noteq> 0"
    and "append_line = append_line_1 \<or> append_line = append_line_2"
  shows "out_lines (process_line append_line t line st) =
           out_lines st @ [join '' '' (str t # tl (split line))]
         \<and> split (join '' '' (str t # tl (split line))) = str t # tl (split line)
         \<and> bbox_written (process_line append_line t line st) = bbox_written st + 1"
proof -
  obtain p ps where ps: "split line = p # ps"
    using assms(1) by (cases "split line") auto
  have "split (join '' '' (str t # tl (split line))) = str t # tl (split line)"
    using split_join_emitted[OF ps, of t "length ps" 0] by (simp add: ps)
  then show ?thesis
    using assms(3)
    by (auto simp: process_line_fallback[OF assms(1,2)] append_line_1_def append_line_2_def)
qed

theorem fallback_line_keeps_tokens_witness:
  "5 \<le> length (split ''7 a b c d e'')
   \<and> (length (split ''7 a b c d e'') - 1) mod 4 \<noteq> 0
   \<and> out_lines (process_line append_line_2 1 ''7 a b c d e''
        \<lparr>out_lines = [], class_counts = [], bbox_written = 0\<rparr>) = [''1 a b c d e'']"
proof -
  have h1: "5 \<le> length (split ''7 a b c d e'')" by code_simp
  have h2: "(length (split ''7 a b c d e'') - 1) mod 4 \<noteq> 0" by code_simp
  have ev: "join '' '' (str 1 # tl (split ''7 a b c d e'')) = ''1 a b c d e''"
    by code_simp
  show ?thesis
    using h1 h2 fallback_line_keeps_tokens[OF h1 h2, of append_line_2 1
        "\<lparr>out_lines = [], class_counts = [], bbox_written = 0\<rparr>"]
    unfolding ev by simp
qed

text \<open>
  Claim C4, as the code has it.  In \<open>merge_dataset_1.py\<close> the closure reads the tally key
  back from the first token of the line it is about to emit, and every caller has put the
  target id there before the call, on the fallback path too.  So each emitted line counts
  under the target id, and the closures of the two scripts do the same on every line.
\<close>

theorem tally_key_is_target_id:
  "process_line append_line_1 t line st = process_line append_line_2 t line st
   \<and> class_counts (process_line append_line_1 t line st) =
       (bump t ^^ (length (out_lines (process_line append_line_1 t line st)) - length (out_lines st)))
         (class_counts st)"
  by (simp add: process_line_1_eq_2 process_line_2_effect)

text \<open>
  Claim C4 as stated fails: on the fallback line \<open>7 a b c d e\<close> with target id 0 the
  source class token reads as 7, and the tally of \<open>merge_dataset_1.py\<close> counts the line
  under 0, as that of \<open>merge_dataset_2.py\<close> does.
\<close>

theorem tally_key_counterexample:
  "py_int (hd (split ''7 a b c d e'')) = Some 7
   \<and> class_counts (process_line append_line_1 0 ''7 a b c d e''
        \<lparr>out_lines = [], class_counts = [], bbox_written = 0\<rparr>) = [(0, 1)]
   \<and> class_counts (process_line append_line_1 0 ''7 a b c d e''
        \<lparr>out_lines = [], class_counts = [], bbox_written = 0\<rparr>) \<noteq> bump 7 []
   \<and> class_counts (process_line append_line_1 0 ''7 a b c d e''
        \<lparr>out_lines = [], class_counts = [], bbox_written = 0\<rparr>) =
     class_counts (process_line append_line_2 0 ''7 a b c d e''
        \<lparr>out_lines = [], class_counts = [], bbox_written = 0\<rparr>)"
  by code_simp

section \<open>Properties of the file operations\<close>

lemma foldM_inv:
  assumes step: "\<And>x s s'. x \<in> set xs \<Longrightarrow> P s \<Longrightarrow> f x s = Inr s' \<Longrightarrow> P s'"
  shows "foldM f xs s = Inr s' \<Longrightarrow> P s \<Longrightarrow> P s'"
  using step
proof (induction xs arbitrary: s)
  case Nil
  then show ?case by simp
next
  case (Cons x xs)
  from Cons.prems(1) obtain s1 where s1: "f x s = Inr s1" and rest: "foldM f xs s1 = Inr s'"
    by (auto split: sum.splits)
  have "P s1" using Cons.prems(3)[OF _ Cons.prems(2) s1] by simp
  show ?case
    by (rule Cons.IH[OF rest \<open>P s1\<close>]) (auto intro: Cons.prems(3))
qed

lemma mkdir_step_Inr:
  "mkdir_step p q fs = Inr fs' \<Longrightarrow>
     (fs' = fs \<and> map_of fs q = Some Dir) \<or> (fs' = fs @ [(q, Dir)] \<and> map_of fs q = None)"
  by (auto simp: mkdir_step_def split: option.splits node.splits)

text \<open>Creating directories only adds directories at paths that did not exist.\<close>

definition adds_dirs :: "filesystem \<Rightarrow> filesystem \<Rightarrow> bool" where
  "adds_dirs fs fs' =
     (\<forall>k. map_of fs' k = map_of fs k \<or> (map_of fs k = None \<and> map_of fs' k = Some Dir))"

lemma mkdir_step_adds:
  assumes "mkdir_step p q fs = Inr fs'"
  shows "adds_dirs fs fs'"
proof -
  have "map_of fs' k = map_of fs k \<or> (map_of fs k = None \<and> map_of fs' k = Some Dir)" for k
    using mkdir_step_Inr[OF assms]
    by (cases "map_of fs k") (auto simp: map_add_def)
  then show ?thesis by (simp add: adds_dirs_def)
qed

lemma adds_dirs_refl: "adds_dirs fs fs"
  by (simp add: adds_dirs_def)

lemma adds_dirs_trans: "adds_dirs a b \<Longrightarrow> adds_dirs b c \<Longrightarrow> adds_dirs a c"
  unfolding adds_dirs_def by (metis option.distinct(1))

lemma make_dirs_adds: "make_dirs fs p = Inr fs' \<Longrightarrow> adds_dirs fs fs'"
  unfolding make_dirs_def
  by (erule foldM_inv[where P = "adds_dirs fs", rotated])
     (auto intro: adds_dirs_refl adds_dirs_trans mkdir_step_adds)

lemma adds_dirs_read_text:
  assumes "adds_dirs fs fs'" and "read_text fs' p = Inr body"
  shows "read_text fs p = Inr body"
proof -
  have "map_of fs' p = Some (File (Text body))"
    using assms(2) by (auto simp: read_text_def split: option.splits node.splits contents.splits)
  moreover have "map_of fs' p = map_of fs p \<or> (map_of fs p = None \<and> map_of fs' p = Some Dir)"
    using assms(1) by (simp add: adds_dirs_def)
  ultimately have "map_of fs p = Some (File (Text body))" by auto
  then show ?thesis by (simp add: read_text_def)
qed

lemma write_file_lookup: "write_file fs p c = Inr fs' \<Longrightarrow> map_of fs' p = Some (File c)"
  by (auto simp: write_file_def update_conv' split: if_splits)

lemma written_text_eq:
  "written_text ls = (if ls = [] then [] else join [CHR 0x0A] ls @ [CHR 0x0A])"
  by (simp add: written_text_def)

text \<open>
  Claim C7.  When a label file is rewritten for real, the file written holds the emitted
  lines joined by newlines, with one final newline exactly when a line was emitted.  The
  box counter and the tally grow by the number of emitted lines.  A file whose lines are
  all blank, the empty file included, gives an empty output file, no emitted line and an
  unchanged tally.
\<close>

theorem label_file_written:
  assumes "append_line = append_line_1 \<or> append_line = append_line_2"
    and "remap_label append_line out_labels pfx t False lab (fs, cc, n, b) = Inr (fs', cc', n', b')"
  shows "\<exists>text emitted.
           read_text fs lab = Inr text
         \<and> emitted = out_lines (remap_text append_line t text cc b)
         \<and> map_of fs' (out_labels @ [pfx @ ''_'' @ name lab]) =
             Some (File (Text (if emitted = [] then [] else join [CHR 0x0A] emitted @ [CHR 0x0A])))
         \<and> b' = b + length emitted
         \<and> count_total cc' = count_total cc + length emitted
         \<and> ((\<forall>l \<in> set (splitlines text). \<forall>c \<in> set l. is_space c) \<longrightarrow>
              emitted = [] \<and> cc' = cc \<and> b' = b
              \<and> map_of fs' (out_labels @ [pfx @ ''_'' @ name lab]) = Some (File (Text [])))"
proof -
  let ?dest = "out_labels @ [pfx @ ''_'' @ name lab]"
  from assms(2) obtain fs1 body where
    mk: "make_dirs fs (parent ?dest) = Inr fs1" and
    rd: "read_text fs1 lab = Inr body" and
    wr: "write_text fs1 ?dest (written_text (out_lines (remap_text append_line t body cc b))) = Inr fs'" and
    cc': "cc' = class_counts (remap_text append_line t body cc b)" and
    b': "b' = bbox_written (remap_text append_line t body cc b)"
    by (auto simp: remap_label_def Let_def split: sum.splits)
  let ?toks = "concat (map (emitted_tokens t) (splitlines body))"
  note eff = remap_text_effect[OF assms(1), of t body cc b]
  have rd0: "read_text fs lab = Inr body"
    using make_dirs_adds[OF mk] rd by (rule adds_dirs_read_text)
  have look: "map_of fs' ?dest =
      Some (File (Text (written_text (out_lines (remap_text append_line t body cc b)))))"
    using wr unfolding write_text_def by (rule write_file_lookup)
  define emitted where "emitted = out_lines (remap_text append_line t body cc b)"
  have len: "length emitted = length ?toks"
    by (simp add: emitted_def eff)
  have c1: "map_of fs' ?dest =
      Some (File (Text (if emitted = [] then [] else join [CHR 0x0A] emitted @ [CHR 0x0A])))"
    using look by (simp add: emitted_def written_text_eq)
  have c2: "b' = b + length emitted"
    by (simp add: b' eff len)
  have c3: "count_total cc' = count_total cc + length emitted"
    by (simp add: cc' eff count_total_bumps len)
  have c4: "emitted = [] \<and> cc' = cc \<and> b' = b \<and> map_of fs' ?dest = Some (File (Text []))"
    if "\<forall>l \<in> set (splitlines body). \<forall>c \<in> set l. is_space c"
  proof -
    have toks: "?toks = []"
      using that by (simp add: emitted_tokens_blank)
    have "emitted = []" by (simp add: emitted_def eff toks)
    moreover have "cc' = cc" by (simp add: cc' eff toks)
    moreover have "b' = b" by (simp add: b' eff toks)
    ultimately show ?thesis using c1 by simp
  qed
  show ?thesis
    using rd0 c1 c2 c3 c4 emitted_def by blast
qed

text \<open>A label file of three blank lines, before and after it is rewritten.\<close>

definition blank_label_tree :: filesystem where "blank_label_tree = [([], Dir), ([''d''], Dir), ([''d'', ''a.txt''], File (Text '' \<newline>\<newline>  '')), ([''o''], Dir)]"

definition blank_label_tree_after :: filesystem where "blank_label_tree_after = [([], Dir), ([''d''], Dir),
       ([''d'', ''a.txt''], File (Text '' \<newline>\<newline>  '')), ([''o''], Dir),
       ([''o'', ''labels''], Dir),
       ([''o'', ''labels'', ''d_a.txt''], File (Text []))]"

theorem label_file_written_witness:
  "remap_label append_line_1 [''o'', ''labels''] ''d'' 0 False [''d'', ''a.txt''] (blank_label_tree, [], 0, 0)
     = Inr (blank_label_tree_after, [], 1, 0)
   \<and> read_text blank_label_tree [''d'', ''a.txt''] = Inr '' \<newline>\<newline>  ''
   \<and> list_all (list_all is_space) (splitlines '' \<newline>\<newline>  '')
   \<and> map_of blank_label_tree_after [''o'', ''labels'', ''d_a.txt''] = Some (File (Text []))"
proof -
  have h: "remap_label append_line_1 [''o'', ''labels''] ''d'' 0 False [''d'', ''a.txt'']
             (blank_label_tree, [], 0, 0) = Inr (blank_label_tree_after, [], 1, 0)"
    by code_simp
  have r: "read_text blank_label_tree [''d'', ''a.txt''] = Inr '' \<newline>\<newline>  ''"
    by code_simp
  have b': "list_all (list_all is_space) (splitlines '' \<newline>\<newline>  '')"
    by code_simp
  then have b: "\<forall>l \<in> set (splitlines '' \<newline>\<newline>  ''). \<forall>c \<in> set l. is_space c"
    by (simp add: list_all_iff)
  from label_file_written[OF disjI1[OF refl] h] r b show ?thesis
    using h b' by (auto simp: name_def)
qed

section \<open>Preview against the real run\<close>

text \<open>The paths that a run with output directory \<open>out\<close> may write are those on the way to
  \<open>out\<close> and those below it; \<open>outside out fs\<close> is the rest of the file system.\<close>

definition touches :: "path \<Rightarrow> path \<Rightarrow> bool" where
  "touches out p = (prefix p out \<or> prefix out p)"

definition outside :: "path \<Rightarrow> filesystem \<Rightarrow> filesystem" where
  "outside out fs = filter (\<lambda>e. \<not> touches out (fst e)) fs"

lemma touches_below: "prefix out p \<Longrightarrow> touches out p"
  by (simp add: touches_def)

lemma touches_above: "prefix q p \<Longrightarrow> prefix out p \<Longrightarrow> touches out q"
  using prefix_same_cases by (auto simp: touches_def)

lemma not_touches_append: "\<not> touches out d \<Longrightarrow> prefix d p \<Longrightarrow> \<not> touches out p"
  unfolding touches_def using prefix_order.order_trans prefix_same_cases by blast

lemma map_of_outside: "\<not> touches out p \<Longrightarrow> map_of (outside out fs) p = map_of fs p"
  by (induction fs) (auto simp: outside_def)

lemma outside_lookup:
  "outside out fs = outside out fs' \<Longrightarrow> \<not> touches out p \<Longrightarrow> map_of fs p = map_of fs' p"
  by (metis map_of_outside)

lemma outside_keys_below:
  "\<not> touches out d \<Longrightarrow>
     filter (strict_prefix d) (map fst (outside out fs)) = filter (strict_prefix d) (map fst fs)"
proof (induction fs)
  case Nil
  then show ?case by (simp add: outside_def)
next
  case (Cons e fs)
  have "\<not> strict_prefix d (fst e)" if "touches out (fst e)"
    using that Cons.prems not_touches_append[of out d "fst e"] by (auto simp: strict_prefix_def)
  then show ?case using Cons by (auto simp: outside_def)
qed

lemma outside_rglob_all:
  assumes "outside out fs = outside out fs'" and "\<not> touches out d"
  shows "rglob_all fs d = rglob_all fs' d"
proof -
  have "filter (strict_prefix d) (map fst fs) = filter (strict_prefix d) (map fst fs')"
    using outside_keys_below[OF assms(2), of fs] outside_keys_below[OF assms(2), of fs'] assms(1)
    by simp
  then show ?thesis
    using outside_lookup[OF assms] by (simp add: rglob_all_def is_dir_def)
qed

lemma outside_update: "touches out p \<Longrightarrow> outside out (AList.update p v fs) = outside out fs"
  by (induction fs) (auto simp: outside_def)

lemma outside_snoc: "touches out p \<Longrightarrow> outside out (fs @ [(p, v)]) = outside out fs"
  by (simp add: outside_def)

lemma make_dirs_outside:
  assumes "prefix out p" and "make_dirs fs p = Inr fs'"
  shows "outside out fs' = outside out fs"
  using assms(2) unfolding make_dirs_def
proof (rule foldM_inv[where P = "\<lambda>s. outside out s = outside out fs", rotated])
  show "outside out fs = outside out fs" by simp
next
  fix q s s'
  assume q: "q \<in> set (prefixes p)" and s: "outside out s = outside out fs"
    and st: "mkdir_step p q s = Inr s'"
  have "touches out q" using q assms(1) touches_above by (simp add: in_set_prefixes)
  then show "outside out s' = outside out fs"
    using mkdir_step_Inr[OF st] s by (auto simp: outside_snoc)
qed

lemma write_file_outside:
  "prefix out p \<Longrightarrow> write_file fs p c = Inr fs' \<Longrightarrow> outside out fs' = outside out fs"
  by (auto simp: write_file_def outside_update touches_below split: if_splits)

lemma copy2_outside:
  assumes "prefix out dst" and "copy2 fs src dst = Inr fs'"
  shows "outside out fs' = outside out fs"
proof -
  let ?dst' = "if is_dir fs dst then dst @ [name src] else dst"
  have p: "prefix out ?dst'" using assms(1) by (simp add: prefix_prefix)
  obtain c where "write_file fs ?dst' c = Inr fs'"
    using assms(2) by (auto simp: copy2_def Let_def split: if_splits option.splits node.splits)
  with p show ?thesis by (rule write_file_outside)
qed

text \<open>Copying an image for real and in preview.\<close>

lemma copy_image_sim:
  assumes out: "prefix out out_images"
    and sim: "outside out fsR = outside out fsD"
    and run: "copy_image out_images pfx False img (fsR, n) = Inr (fsR', n')"
  shows "copy_image out_images pfx True img (fsD, n) = Inr (fsD, n') \<and> outside out fsR' = outside out fsD"
proof -
  let ?dest = "out_images @ [pfx @ ''_'' @ name img]"
  from run obtain fs1 where mk: "make_dirs fsR (parent ?dest) = Inr fs1"
    and cp: "copy2 fs1 img ?dest = Inr fsR'" and n': "n' = n + 1"
    by (auto simp: copy_image_def Let_def split: sum.splits)
  have "outside out fs1 = outside out fsR"
    using out mk by (intro make_dirs_outside[of out "parent ?dest"]) (simp_all add: parent_def)
  moreover have "outside out fsR' = outside out fs1"
    using out cp by (intro copy2_outside[of out ?dest]) (simp_all add: prefix_prefix)
  ultimately show ?thesis
    using sim n' by (simp add: copy_image_def)
qed

lemma remap_label_sim:
  assumes out: "prefix out out_labels"
    and lab: "\<not> touches out lab"
    and sim: "outside out fsR = outside out fsD"
    and run: "remap_label append_line out_labels pfx t False lab (fsR, cc, n, b) = Inr (fsR', cc', n', b')"
  shows "remap_label append_line out_labels pfx t True lab (fsD, cc, n, b) = Inr (fsD, cc', n', b')
         \<and> outside out fsR' = outside out fsD"
proof -
  let ?dest = "out_labels @ [pfx @ ''_'' @ name lab]"
  from run obtain fs1 body where
    mk: "make_dirs fsR (parent ?dest) = Inr fs1" and
    rd: "read_text fs1 lab = Inr body" and
    wr: "write_text fs1 ?dest (written_text (out_lines (remap_text append_line t body cc b))) = Inr fsR'" and
    res: "cc' = class_counts (remap_text append_line t body cc b)" "n' = n + 1"
         "b' = bbox_written (remap_text append_line t body cc b)"
    by (auto simp: remap_label_def Let_def split: sum.splits)
  have o1: "outside out fs1 = outside out fsR"
    using out mk by (intro make_dirs_outside[of out "parent ?dest"]) (simp_all add: parent_def)
  have o2: "outside out fsR' = outside out fs1"
    using out wr unfolding write_text_def
    by (intro write_file_outside[of out ?dest]) (simp_all add: prefix_prefix)
  have "map_of fsD lab = map_of fs1 lab"
    using outside_lookup[OF _ lab, of fsD fs1] o1 sim by simp
  then have "read_text fsD lab = Inr body"
    using rd by (simp add: read_text_def)
  then show ?thesis
    using res o1 o2 sim by (simp add: remap_label_def Let_def)
qed

lemma outside_is_file:
  "outside out fs = outside out fs' \<Longrightarrow> \<not> touches out p \<Longrightarrow> is_file fs p = is_file fs' p"
  by (simp add: is_file_def outside_lookup[of out fs fs' p])

lemma outside_is_dir:
  "outside out fs = outside out fs' \<Longrightarrow> \<not> touches out p \<Longrightarrow> is_dir fs p = is_dir fs' p"
  by (simp add: is_dir_def outside_lookup[of out fs fs' p])

lemma outside_exists:
  "outside out fs = outside out fs' \<Longrightarrow> \<not> touches out p \<Longrightarrow> exists fs p = exists fs' p"
  by (simp add: exists_def outside_lookup[of out fs fs' p])

lemma foldM_Cons_Inr:
  "foldM f (x # xs) s = Inr s' \<Longrightarrow> \<exists>s1. f x s = Inr s1 \<and> foldM f xs s1 = Inr s'"
  by (auto split: sum.splits)

lemma foldM_dry_sim:
  assumes step: "\<And>x s a s' a'. x \<in> set xs \<Longrightarrow> outside out s = outside out fsD \<Longrightarrow>
      f x (s, a) = Inr (s', a') \<Longrightarrow> g x (fsD, a) = Inr (fsD, a') \<and> outside out s' = outside out fsD"
  shows "outside out fsR = outside out fsD \<Longrightarrow> foldM f xs (fsR, a) = Inr (fsR', a') \<Longrightarrow>
     foldM g xs (fsD, a) = Inr (fsD, a') \<and> outside out fsR' = outside out fsD"
  using step
proof (induction xs arbitrary: fsR a)
  case Nil
  then show ?case by simp
next
  case (Cons x xs)
  from foldM_Cons_Inr[OF Cons.prems(2)] obtain s1 a1 where
    st: "f x (fsR, a) = Inr (s1, a1)" and rest: "foldM f xs (s1, a1) = Inr (fsR', a')"
    by (metis surj_pair)
  from Cons.prems(3)[OF _ Cons.prems(1) st]
  have d: "g x (fsD, a) = Inr (fsD, a1)" and o: "outside out s1 = outside out fsD"
    by simp_all
  have "foldM g xs (fsD, a1) = Inr (fsD, a') \<and> outside out fsR' = outside out fsD"
    by (rule Cons.IH[OF o rest], rule Cons.prems(3)) simp_all
  then show ?case using d by simp
qed

lemma image_step_1_sim:
  assumes "prefix out out_images" and "\<not> touches out img"
    and sim: "outside out fsR = outside out fsD"
    and run: "image_step_1 out_images pfx False img (fsR, n) = Inr (fsR', n')"
  shows "image_step_1 out_images pfx True img (fsD, n) = Inr (fsD, n') \<and> outside out fsR' = outside out fsD"
proof -
  have f: "is_file fsR img = is_file fsD img"
    using sim assms(2) by (rule outside_is_file)
  show ?thesis
  proof (cases "is_file fsR img")
    case True
    then have "copy_image out_images pfx False img (fsR, n) = Inr (fsR', n')"
      using run by (simp add: image_step_1_def)
    from copy_image_sim[OF assms(1) sim this] show ?thesis
      using True f by (simp add: image_step_1_def)
  next
    case False
    then show ?thesis using run f sim by (simp add: image_step_1_def)
  qed
qed

lemma label_step_1_sim:
  assumes "prefix out out_labels" and "\<not> touches out lab"
    and sim: "outside out fsR = outside out fsD"
    and run: "label_step_1 out_labels pfx t False lab (fsR, st) = Inr (fsR', st')"
  shows "label_step_1 out_labels pfx t True lab (fsD, st) = Inr (fsD, st') \<and> outside out fsR' = outside out fsD"
proof -
  obtain cc n b where st: "st = (cc, n, b)" by (cases st) auto
  obtain cc' n' b' where st': "st' = (cc', n', b')" by (cases st') auto
  have f: "is_file fsR lab = is_file fsD lab"
    using sim assms(2) by (rule outside_is_file)
  show ?thesis
  proof (cases "is_file fsR lab")
    case True
    then have "remap_label append_line_1 out_labels pfx t False lab (fsR, cc, n, b) = Inr (fsR', cc', n', b')"
      using run by (simp add: label_step_1_def st st')
    from remap_label_sim[OF assms(1,2) sim this] show ?thesis
      using True f by (simp add: label_step_1_def st st')
  next
    case False
    then show ?thesis using run f sim by (simp add: label_step_1_def)
  qed
qed

lemma remap_label_sim':
  assumes "prefix out out_labels" and "\<not> touches out lab"
    and sim: "outside out fsR = outside out fsD"
    and run: "remap_label append_line out_labels pfx t False lab (fsR, st) = Inr (fsR', st')"
  shows "remap_label append_line out_labels pfx t True lab (fsD, st) = Inr (fsD, st')
         \<and> outside out fsR' = outside out fsD"
proof -
  obtain cc n b where st: "st = (cc, n, b)" by (cases st) auto
  obtain cc' n' b' where st': "st' = (cc', n', b')" by (cases st') auto
  show ?thesis
    using remap_label_sim[OF assms(1,2) sim run[unfolded st st']] by (simp add: st st')
qed

lemma not_touches_sub: "\<not> touches out d \<Longrightarrow> \<not> touches out (d @ xs)"
  by (erule not_touches_append) simp

lemma not_touches_below: "\<not> touches out d \<Longrightarrow> strict_prefix (d @ xs) p \<Longrightarrow> \<not> touches out p"
  by (rule not_touches_append[of out d]) (auto simp: strict_prefix_def prefix_def)

lemma rglob_all_below: "p \<in> set (rglob_all fs d) \<Longrightarrow> strict_prefix d p"
  by (auto simp: rglob_all_def split: if_splits)

lemma rglob_txt_below: "p \<in> set (rglob_txt fs d) \<Longrightarrow> strict_prefix d p"
  by (auto simp: rglob_txt_def rglob_all_below)

lemma process_split_1_sim:
  assumes ds: "\<not> touches out dataset_dir"
    and oi: "prefix out out_images" and ol: "prefix out out_labels"
    and sim: "outside out fsR = outside out fsD"
    and run: "process_split_1 fsR dataset_dir split_name out_images out_labels pfx t cc False
                = Inr (res, cc', fsR')"
  shows "process_split_1 fsD dataset_dir split_name out_images out_labels pfx t cc True
           = Inr (res, cc', fsD)
         \<and> outside out fsR' = outside out fsD"
proof -
  let ?idir = "dataset_dir @ [split_name, ''images'']"
  let ?ldir = "dataset_dir @ [split_name, ''labels'']"
  let ?imgs = "if exists fsR ?idir then rglob_all fsR ?idir else []"
  let ?labs = "if exists fsR ?ldir then rglob_txt fsR ?ldir else []"
  have ti: "\<not> touches out ?idir" and tl: "\<not> touches out ?ldir"
    using ds by (simp_all add: not_touches_sub)
  have imgs: "(if exists fsD ?idir then rglob_all fsD ?idir else []) = ?imgs"
    using outside_exists[OF sim ti] outside_rglob_all[OF sim ti] by simp
  have labs: "(if exists fsD ?ldir then rglob_txt fsD ?ldir else []) = ?labs"
    using outside_exists[OF sim tl] outside_rglob_all[OF sim tl] by (simp add: rglob_txt_def)
  have imgs_t: "\<not> touches out img" if "img \<in> set ?imgs" for img
    using that rglob_all_below[of img fsR ?idir] not_touches_below[OF ds]
    by (auto split: if_splits)
  have labs_t: "\<not> touches out lab" if "lab \<in> set ?labs" for lab
    using that rglob_txt_below[of lab fsR ?ldir] not_touches_below[OF ds]
    by (auto split: if_splits)
  from run obtain fs1 ci cl bx where
    l1: "foldM (image_step_1 out_images pfx False) ?imgs (fsR, 0) = Inr (fs1, ci)" and
    l2: "foldM (label_step_1 out_labels pfx t False) ?labs (fs1, cc, 0, 0) = Inr (fsR', cc', cl, bx)" and
    res: "res = (ci, cl, bx)"
    by (auto simp: process_split_1_def Let_def split: sum.splits)
  have d1: "foldM (image_step_1 out_images pfx True) ?imgs (fsD, 0) = Inr (fsD, ci)
            \<and> outside out fs1 = outside out fsD"
  proof (rule foldM_dry_sim[OF _ sim l1])
    fix x s a s' a'
    assume "x \<in> set ?imgs" and "outside out s = outside out fsD"
      and "image_step_1 out_images pfx False x (s, a) = Inr (s', a')"
    then show "image_step_1 out_images pfx True x (fsD, a) = Inr (fsD, a')
        \<and> outside out s' = outside out fsD"
      using image_step_1_sim[OF oi imgs_t] by blast
  qed
  then have o1: "outside out fs1 = outside out fsD" by simp
  have d2: "foldM (label_step_1 out_labels pfx t True) ?labs (fsD, cc, 0, 0) = Inr (fsD, cc', cl, bx)
            \<and> outside out fsR' = outside out fsD"
  proof (rule foldM_dry_sim[OF _ o1 l2])
    fix x s a s' a'
    assume "x \<in> set ?labs" and "outside out s = outside out fsD"
      and "label_step_1 out_labels pfx t False x (s, a) = Inr (s', a')"
    then show "label_step_1 out_labels pfx t True x (fsD, a) = Inr (fsD, a')
        \<and> outside out s' = outside out fsD"
      using label_step_1_sim[OF ol labs_t] by blast
  qed
  show ?thesis
    using d1 d2 res by (simp add: process_split_1_def Let_def imgs labs)
qed

lemma find_alias_sim:
  assumes "outside out fsR = outside out fsD" and "\<not> touches out d"
  shows "find_alias fsR d aliases = find_alias fsD d aliases"
proof (induction aliases)
  case Nil
  then show ?case by simp
next
  case (Cons a aliases)
  have "\<not> touches out (d @ [a, ''images''])" and "\<not> touches out (d @ [a, ''labels''])"
    using assms(2) by (simp_all add: not_touches_sub)
  then show ?case
    using Cons outside_exists[OF assms(1)] outside_is_dir[OF assms(1)] by (simp add: Let_def)
qed

lemma find_alias_below:
  "find_alias fs d aliases = (i, l) \<Longrightarrow>
     (\<forall>p. i = Some p \<longrightarrow> (\<exists>xs. p = d @ xs)) \<and> (\<forall>p. l = Some p \<longrightarrow> (\<exists>xs. p = d @ xs))"
  by (induction aliases) (auto simp: Let_def split: if_splits)

lemma find_split_dirs_sim:
  "outside out fsR = outside out fsD \<Longrightarrow> \<not> touches out d \<Longrightarrow>
     find_split_dirs fsR d k = find_split_dirs fsD d k"
  by (simp add: find_split_dirs_def find_alias_sim[of out fsR fsD d] split: option.splits)

lemma find_split_dirs_below:
  "find_split_dirs fs d k = Inr (i, l) \<Longrightarrow>
     (\<forall>p. i = Some p \<longrightarrow> (\<exists>xs. p = d @ xs)) \<and> (\<forall>p. l = Some p \<longrightarrow> (\<exists>xs. p = d @ xs))"
  by (auto simp: find_split_dirs_def split: option.splits dest: find_alias_below)

lemma iter_images_sim:
  assumes sim: "outside out fsR = outside out fsD" and t: "\<not> touches out d"
  shows "iter_images fsR d = iter_images fsD d"
proof -
  have "is_file fsR p = is_file fsD p" if "p \<in> set (rglob_all fsD d)" for p
    using sim not_touches_below[OF t, of "[]" p] rglob_all_below[OF that]
    by (intro outside_is_file) simp_all
  then show ?thesis
    unfolding iter_images_def outside_rglob_all[OF sim t]
    by (intro filter_cong) auto
qed

lemma iter_label_files_sim:
  assumes sim: "outside out fsR = outside out fsD" and t: "\<not> touches out d"
  shows "iter_label_files fsR (Some d) = iter_label_files fsD (Some d)"
proof -
  have eq: "rglob_txt fsR d = rglob_txt fsD d"
    by (simp add: rglob_txt_def outside_rglob_all[OF sim t])
  have "is_file fsR p = is_file fsD p" if "p \<in> set (rglob_txt fsD d)" for p
    using sim not_touches_below[OF t, of "[]" p] rglob_txt_below[OF that]
    by (intro outside_is_file) simp_all
  then have "filter (is_file fsR) (rglob_txt fsD d) = filter (is_file fsD) (rglob_txt fsD d)"
    by (intro filter_cong) auto
  then show ?thesis
    by (simp add: iter_label_files_def eq)
qed

lemma iter_label_files_below: "p \<in> set (iter_label_files fs (Some d)) \<Longrightarrow> strict_prefix d p"
  by (auto simp: iter_label_files_def rglob_txt_below)

lemma process_split_2_sim:
  assumes ds: "\<not> touches out dataset_dir"
    and oi: "prefix out out_images" and ol: "prefix out out_labels"
    and sim: "outside out fsR = outside out fsD"
    and run: "process_split_2 fsR dataset_dir split_key out_images out_labels pfx t cc False
                = Inr (res, cc', fsR')"
  shows "process_split_2 fsD dataset_dir split_key out_images out_labels pfx t cc True
           = Inr (res, cc', fsD)
         \<and> outside out fsR' = outside out fsD"
proof -
  from run obtain i l where fsd: "find_split_dirs fsR dataset_dir split_key = Inr (i, l)"
    by (auto simp: process_split_2_def split: sum.splits)
  then have fsd': "find_split_dirs fsD dataset_dir split_key = Inr (i, l)"
    using find_split_dirs_sim[OF sim ds] by simp
  show ?thesis
  proof (cases i)
    case None
    then show ?thesis
      using run fsd fsd' sim by (simp add: process_split_2_def)
  next
    case (Some idir)
    then have ti: "\<not> touches out idir"
      using find_split_dirs_below[OF fsd] ds by (auto simp: not_touches_sub)
    from run fsd Some obtain fs1 ci where
      l1: "foldM (copy_image out_images pfx False) (iter_images fsR idir) (fsR, 0) = Inr (fs1, ci)"
      by (auto simp: process_split_2_def split: sum.splits)
    have d1: "foldM (copy_image out_images pfx True) (iter_images fsR idir) (fsD, 0) = Inr (fsD, ci)
              \<and> outside out fs1 = outside out fsD"
    proof (rule foldM_dry_sim[OF _ sim l1])
      fix x s a s' a'
      assume "outside out s = outside out fsD"
        and "copy_image out_images pfx False x (s, a) = Inr (s', a')"
      then show "copy_image out_images pfx True x (fsD, a) = Inr (fsD, a')
          \<and> outside out s' = outside out fsD"
        using copy_image_sim[OF oi] by blast
    qed
    then have o1: "outside out fs1 = outside out fsD" by simp
    note ii = iter_images_sim[OF sim ti]
    show ?thesis
    proof (cases l)
      case None
      then show ?thesis
        using run fsd fsd' Some l1 d1 by (simp add: process_split_2_def ii)
    next
      case (Some ldir)
      then have tl: "\<not> touches out ldir"
        using find_split_dirs_below[OF fsd] ds by (auto simp: not_touches_sub)
      have labs_t: "\<not> touches out lab" if "lab \<in> set (iter_label_files fs1 (Some ldir))" for lab
        using iter_label_files_below[OF that] not_touches_below[OF tl, of "[]" lab] by simp
      from run fsd \<open>i = Some idir\<close> Some l1 obtain cl bx where
        l2: "foldM (remap_label append_line_2 out_labels pfx t False)
               (iter_label_files fs1 (Some ldir)) (fs1, cc, 0, 0) = Inr (fsR', cc', cl, bx)"
        and res: "res = (ci, cl, bx)"
        by (auto simp: process_split_2_def split: sum.splits)
      have d2: "foldM (remap_label append_line_2 out_labels pfx t True)
               (iter_label_files fs1 (Some ldir)) (fsD, cc, 0, 0) = Inr (fsD, cc', cl, bx)
              \<and> outside out fsR' = outside out fsD"
      proof (rule foldM_dry_sim[OF _ o1 l2])
        fix x s a s' a'
        assume "x \<in> set (iter_label_files fs1 (Some ldir))" and "outside out s = outside out fsD"
          and "remap_label append_line_2 out_labels pfx t False x (s, a) = Inr (s', a')"
        then show "remap_label append_line_2 out_labels pfx t True x (fsD, a) = Inr (fsD, a')
            \<and> outside out s' = outside out fsD"
          using remap_label_sim'[OF ol labs_t] by blast
      qed
      show ?thesis
        using fsd' \<open>i = Some idir\<close> Some d1 d2 res
        by (simp add: process_split_2_def ii[symmetric] iter_label_files_sim[OF o1 tl, symmetric])
    qed
  qed
qed

lemma split_step_1_sim:
  assumes ds: "\<not> touches out ds_path"
    and sim: "outside out fsR = outside out fsD"
    and run: "split_step_1 out ds_path ds_name pfx t False sp (fsR, a) = Inr (fsR', a')"
  shows "split_step_1 out ds_path ds_name pfx t True sp (fsD, a) = Inr (fsD, a')
         \<and> outside out fsR' = outside out fsD"
proof -
  obtain stats cc total where a: "a = (stats, cc, total)" by (cases a) auto
  from run obtain res cc1 where
    ps: "process_split_1 fsR ds_path sp (out @ [sp, ''images'']) (out @ [sp, ''labels'']) pfx t cc False
           = Inr (res, cc1, fsR')"
    by (auto simp: split_step_1_def a split: sum.splits)
  from process_split_1_sim[OF ds _ _ sim ps]
  have "process_split_1 fsD ds_path sp (out @ [sp, ''images'']) (out @ [sp, ''labels'']) pfx t cc True
           = Inr (res, cc1, fsD)" and o: "outside out fsR' = outside out fsD"
    by simp_all
  then show ?thesis
    using run ps by (auto simp: split_step_1_def a split: prod.splits)
qed

lemma split_step_2_sim:
  assumes ds: "\<not> touches out ds_path"
    and sim: "outside out fsR = outside out fsD"
    and run: "split_step_2 out ds_path pfx False sp (fsR, a) = Inr (fsR', a')"
  shows "split_step_2 out ds_path pfx True sp (fsD, a) = Inr (fsD, a')
         \<and> outside out fsR' = outside out fsD"
proof -
  obtain stats cc total where a: "a = (stats, cc, total)" by (cases a) auto
  from run obtain res cc1 where
    ps: "process_split_2 fsR ds_path sp (out @ [sp, ''images'']) (out @ [sp, ''labels'']) pfx
           FORCED_TARGET_ID cc False = Inr (res, cc1, fsR')"
    by (auto simp: split_step_2_def a split: sum.splits)
  from process_split_2_sim[OF ds _ _ sim ps]
  have "process_split_2 fsD ds_path sp (out @ [sp, ''images'']) (out @ [sp, ''labels'']) pfx
           FORCED_TARGET_ID cc True = Inr (res, cc1, fsD)" and o: "outside out fsR' = outside out fsD"
    by simp_all
  then show ?thesis
    using run ps by (auto simp: split_step_2_def a split: prod.splits)
qed

lemma dataset_step_1_sim:
  assumes ds: "\<not> touches out (root @ [fst d])"
    and sim: "outside out fsR = outside out fsD"
    and run: "dataset_step_1 root out False d (fsR, a) = Inr (fsR', a')"
  shows "dataset_step_1 root out True d (fsD, a) = Inr (fsD, a') \<and> outside out fsR' = outside out fsD"
proof -
  obtain ds_name t where d: "d = (ds_name, t)" by (cases d) auto
  obtain stats cc total where a: "a = (stats, cc, total)" by (cases a) auto
  have ds': "\<not> touches out (root @ [ds_name])" using ds d by simp
  have ex: "exists fsR (root @ [ds_name]) = exists fsD (root @ [ds_name])"
    using sim ds' by (rule outside_exists)
  show ?thesis
  proof (cases "exists fsR (root @ [ds_name])")
    case False
    then show ?thesis
      using run ex sim by (simp add: dataset_step_1_def d a)
  next
    case True
    let ?pfx = "replace CHR ''.'' CHR ''_'' (replace os_sep CHR ''_'' ds_name)"
    from True run have
      l: "foldM (split_step_1 out (root @ [ds_name]) ds_name ?pfx t False) SPLITS
            (fsR, AList.update ds_name [] stats, cc, total) = Inr (fsR', a')"
      by (simp add: dataset_step_1_def d a Let_def)
    have "foldM (split_step_1 out (root @ [ds_name]) ds_name ?pfx t True) SPLITS
            (fsD, AList.update ds_name [] stats, cc, total) = Inr (fsD, a')
          \<and> outside out fsR' = outside out fsD"
    proof (rule foldM_dry_sim[OF _ sim l])
      fix x s b s' b'
      assume "outside out s = outside out fsD"
        and "split_step_1 out (root @ [ds_name]) ds_name ?pfx t False x (s, b) = Inr (s', b')"
      then show "split_step_1 out (root @ [ds_name]) ds_name ?pfx t True x (fsD, b) = Inr (fsD, b')
          \<and> outside out s' = outside out fsD"
        using split_step_1_sim[OF ds'] by blast
    qed
    then show ?thesis
      using True ex by (simp add: dataset_step_1_def d a Let_def)
  qed
qed

lemma dataset_step_2_sim:
  assumes ds: "\<not> touches out ds_path"
    and sim: "outside out fsR = outside out fsD"
    and run: "dataset_step_2 out False ds_path (fsR, a) = Inr (fsR', a')"
  shows "dataset_step_2 out True ds_path (fsD, a) = Inr (fsD, a') \<and> outside out fsR' = outside out fsD"
proof -
  obtain stats cc total where a: "a = (stats, cc, total)" by (cases a) auto
  let ?pfx = "sanitize_prefix (name ds_path)"
  from run have
    l: "foldM (split_step_2 out ds_path ?pfx False) SPLITS
          (fsR, AList.update (name ds_path) [] stats, cc, total) = Inr (fsR', a')"
    by (simp add: dataset_step_2_def a Let_def)
  have "foldM (split_step_2 out ds_path ?pfx True) SPLITS
          (fsD, AList.update (name ds_path) [] stats, cc, total) = Inr (fsD, a')
        \<and> outside out fsR' = outside out fsD"
  proof (rule foldM_dry_sim[OF _ sim l])
    fix x s b s' b'
    assume "outside out s = outside out fsD"
      and "split_step_2 out ds_path ?pfx False x (s, b) = Inr (s', b')"
    then show "split_step_2 out ds_path ?pfx True x (fsD, b) = Inr (fsD, b')
        \<and> outside out s' = outside out fsD"
      using split_step_2_sim[OF ds] by blast
  qed
  then show ?thesis
    by (simp add: dataset_step_2_def a Let_def)
qed

lemma merge_1_sim:
  assumes ds: "\<forall>d \<in> set DATASETS. \<not> touches out (root @ [fst d])"
    and run: "merge_1 fs root out False = Inr (res, fs')"
  shows "\<exists>fs''. merge_1 fs root out True = Inr (res, fs'')"
proof -
  from run obtain fs1 fs2 a where
    mk: "make_output_dirs fs out = Inr fs1" and
    l: "foldM (dataset_step_1 root out False) DATASETS (fs1, [], [], 0) = Inr (fs2, a)" and
    res: "res = a"
    by (auto simp: merge_1_def split: sum.splits)
  have "foldM (dataset_step_1 root out True) DATASETS (fs1, [], [], 0) = Inr (fs1, a)
        \<and> outside out fs2 = outside out fs1"
  proof (rule foldM_dry_sim[OF _ refl l])
    fix x s b s' b'
    assume "x \<in> set DATASETS" and "outside out s = outside out fs1"
      and "dataset_step_1 root out False x (s, b) = Inr (s', b')"
    then show "dataset_step_1 root out True x (fs1, b) = Inr (fs1, b')
        \<and> outside out s' = outside out fs1"
      using dataset_step_1_sim ds by blast
  qed
  then show ?thesis
    using mk res by (cases a) (simp add: merge_1_def write_data_yaml_def)
qed

lemma merge_2_sim:
  assumes ds: "\<forall>d \<in> set datasets. \<not> touches out d"
    and run: "merge_2 fs root out datasets False = Inr (res, fs')"
  shows "\<exists>fs''. merge_2 fs root out datasets True = Inr (res, fs'')"
proof -
  from run obtain fs1 fs2 a where
    mk: "make_output_dirs fs out = Inr fs1" and
    l: "foldM (dataset_step_2 out False) datasets (fs1, [], [], 0) = Inr (fs2, a)" and
    res: "res = a"
    by (auto simp: merge_2_def split: sum.splits)
  have "foldM (dataset_step_2 out True) datasets (fs1, [], [], 0) = Inr (fs1, a)
        \<and> outside out fs2 = outside out fs1"
  proof (rule foldM_dry_sim[OF _ refl l])
    fix x s b s' b'
    assume "x \<in> set datasets" and "outside out s = outside out fs1"
      and "dataset_step_2 out False x (s, b) = Inr (s', b')"
    then show "dataset_step_2 out True x (fs1, b) = Inr (fs1, b')
        \<and> outside out s' = outside out fs1"
      using dataset_step_2_sim ds by blast
  qed
  then show ?thesis
    using mk res by (cases a) (simp add: merge_2_def write_data_yaml_def)
qed

subsection \<open>Example trees\<close>

text \<open>A root \<open>/r\<close> that holds one dataset of \<open>merge_dataset_1.py\<close>, with one image
  and one label file of two boxes in its train split.\<close>

definition card_tree :: filesystem where
  "card_tree =
     [([], Dir),
      ([''r''], Dir),
      ([''r'', ''credit-cards.yolov11''], Dir),
      ([''r'', ''credit-cards.yolov11'', ''train''], Dir),
      ([''r'', ''credit-cards.yolov11'', ''train'', ''images''], Dir),
      ([''r'', ''credit-cards.yolov11'', ''train'', ''images'', ''a.jpg''], File (Bytes ''xx'')),
      ([''r'', ''credit-cards.yolov11'', ''train'', ''labels''], Dir),
      ([''r'', ''credit-cards.yolov11'', ''train'', ''labels'', ''a.txt''],
         File (Text ''0 1 2 3 4 5 6 7 8''))]"

definition no_files :: "(string \<times> split_stats) list" where
  "no_files =
     [(''train'', \<lparr>images_copied = 0, labels_copied = 0, boxes = 0\<rparr>),
      (''valid'', \<lparr>images_copied = 0, labels_copied = 0, boxes = 0\<rparr>),
      (''test'', \<lparr>images_copied = 0, labels_copied = 0, boxes = 0\<rparr>)]"

definition one_image_two_boxes :: "(string \<times> split_stats) list" where
  "one_image_two_boxes =
     [(''train'', \<lparr>images_copied = 1, labels_copied = 1, boxes = 2\<rparr>),
      (''valid'', \<lparr>images_copied = 0, labels_copied = 0, boxes = 0\<rparr>),
      (''test'', \<lparr>images_copied = 0, labels_copied = 0, boxes = 0\<rparr>)]"

text \<open>A root \<open>/r\<close> with one dataset for \<open>merge_dataset_2.py\<close>; its train images hold a
  picture and a text file.\<close>

definition id_tree :: filesystem where
  "id_tree =
     [([], Dir),
      ([''r''], Dir),
      ([''r'', ''a.yolov11''], Dir),
      ([''r'', ''a.yolov11'', ''train''], Dir),
      ([''r'', ''a.yolov11'', ''train'', ''images''], Dir),
      ([''r'', ''a.yolov11'', ''train'', ''images'', ''a.JPG''], File (Bytes ''xx'')),
      ([''r'', ''a.yolov11'', ''train'', ''images'', ''notes.txt''], File (Text ''xx'')),
      ([''r'', ''a.yolov11'', ''train'', ''labels''], Dir),
      ([''r'', ''a.yolov11'', ''train'', ''labels'', ''a.txt''], File (Text ''0 1 2 3 4 5 6 7 8'')),
      ([''r'', ''a.yolov11'', ''val''], Dir),
      ([''r'', ''a.yolov11'', ''val'', ''images''], Dir),
      ([''r'', ''a.yolov11'', ''test''], Dir),
      ([''r'', ''a.yolov11'', ''test'', ''images''], Dir)]"

text \<open>
  Claim C1, as the code has it.  In either script, when the run that writes returns and no
  dataset directory lies on the way to the output directory, is the output directory, or
  lies below it, the preview of the same tree returns the same statistics, the same class
  counts and the same total.
\<close>

theorem preview_returns_same_statistics:
  "(merge_1 fs root out False = Inr (res, fs') \<longrightarrow>
      (\<forall>d \<in> set DATASETS. \<not> touches out (root @ [fst d])) \<longrightarrow>
      (\<exists>fs''. merge_1 fs root out True = Inr (res, fs'')))
   \<and> (merge_2 fs root out datasets False = Inr (res, fs') \<longrightarrow>
      (\<forall>d \<in> set datasets. \<not> touches out d) \<longrightarrow>
      (\<exists>fs''. merge_2 fs root out datasets True = Inr (res, fs'')))"
  using merge_1_sim merge_2_sim by blast

theorem preview_returns_same_statistics_witness:
  "map_sum id fst (merge_1 card_tree [''r''] [''r'', ''out''] False)
     = Inr ([(''credit-cards.yolov11'', one_image_two_boxes)], [(0, 2)], 2)
   \<and> list_all (\<lambda>d. \<not> touches [''r'', ''out''] ([''r''] @ [fst d])) DATASETS
   \<and> map_sum id fst (merge_1 card_tree [''r''] [''r'', ''out''] True)
     = Inr ([(''credit-cards.yolov11'', one_image_two_boxes)], [(0, 2)], 2)
   \<and> map_sum id fst (merge_2 id_tree [''r''] [''r'', ''out''] [[''r'', ''a.yolov11'']] False)
     = Inr ([(''a.yolov11'', one_image_two_boxes)], [(1, 2)], 2)
   \<and> list_all (\<lambda>d. \<not> touches [''r'', ''out''] d) [[''r'', ''a.yolov11'']]
   \<and> map_sum id fst (merge_2 id_tree [''r''] [''r'', ''out''] [[''r'', ''a.yolov11'']] True)
     = Inr ([(''a.yolov11'', one_image_two_boxes)], [(1, 2)], 2)"
proof -
  let ?r1 = "([(''credit-cards.yolov11'', one_image_two_boxes)], [(0, 2)], 2)"
  let ?r2 = "([(''a.yolov11'', one_image_two_boxes)], [(1, 2)], 2)"
  have h1: "map_sum id fst (merge_1 card_tree [''r''] [''r'', ''out''] False) = Inr ?r1"
    by code_simp
  have d1: "list_all (\<lambda>d. \<not> touches [''r'', ''out''] ([''r''] @ [fst d])) DATASETS"
    by code_simp
  have h2: "map_sum id fst (merge_2 id_tree [''r''] [''r'', ''out''] [[''r'', ''a.yolov11'']] False)
      = Inr ?r2"
    by code_simp
  have d2: "list_all (\<lambda>d. \<not> touches [''r'', ''out''] d) [[''r'', ''a.yolov11'']]"
    by code_simp
  from h1 obtain fs1 where r1: "merge_1 card_tree [''r''] [''r'', ''out''] False = Inr (?r1, fs1)"
    by (cases "merge_1 card_tree [''r''] [''r'', ''out''] False") auto
  from h2 obtain fs2 where
    r2: "merge_2 id_tree [''r''] [''r'', ''out''] [[''r'', ''a.yolov11'']] False = Inr (?r2, fs2)"
    by (cases "merge_2 id_tree [''r''] [''r'', ''out''] [[''r'', ''a.yolov11'']] False") auto
  have "\<exists>fs''. merge_1 card_tree [''r''] [''r'', ''out''] True = Inr (?r1, fs'')"
    using preview_returns_same_statistics[where fs = card_tree and root = "[''r'']"
        and out = "[''r'', ''out'']" and res = ?r1 and fs' = fs1] r1 d1
    by (simp add: list_all_iff)
  moreover have "\<exists>fs''. merge_2 id_tree [''r''] [''r'', ''out''] [[''r'', ''a.yolov11'']] True
      = Inr (?r2, fs'')"
    using preview_returns_same_statistics[where fs = id_tree and root = "[''r'']"
        and out = "[''r'', ''out'']" and datasets = "[[''r'', ''a.yolov11'']]"
        and res = ?r2 and fs' = fs2] r2 d2
    by (simp add: list_all_iff)
  ultimately show ?thesis
    using h1 d1 h2 d2 by auto
qed

text \<open>The same root where a directory already has the name of the label file that the
  merge is going to write.\<close>

definition card_tree_blocked :: filesystem where
  "card_tree_blocked =
     card_tree @
     [([''r'', ''out''], Dir),
      ([''r'', ''out'', ''train''], Dir),
      ([''r'', ''out'', ''train'', ''labels''], Dir),
      ([''r'', ''out'', ''train'', ''labels'', ''credit-cards_yolov11_a.txt''], Dir)]"

text \<open>
  Claim C1 as stated fails in two ways.  When the output directory is a dataset directory
  (here \<open>passport.yolov11\<close>), the run that writes copies the files of the first dataset
  into it and then counts them again as the passport dataset; the preview does not.  And
  when a write fails, the run that writes raises where the preview returns its statistics.
\<close>

theorem preview_differs_counterexample:
  "map_sum id fst (merge_1 card_tree [''r''] [''r'', ''passport.yolov11''] True)
     = Inr ([(''credit-cards.yolov11'', one_image_two_boxes), (''passport.yolov11'', no_files)],
            [(0, 2)], 2)
   \<and> map_sum id fst (merge_1 card_tree [''r''] [''r'', ''passport.yolov11''] False)
     = Inr ([(''credit-cards.yolov11'', one_image_two_boxes),
             (''passport.yolov11'', one_image_two_boxes)],
            [(0, 2), (2, 2)], 4)
   \<and> map_sum id fst (merge_1 card_tree_blocked [''r''] [''r'', ''out''] True)
     = Inr ([(''credit-cards.yolov11'', one_image_two_boxes)], [(0, 2)], 2)
   \<and> map_sum id fst (merge_1 card_tree_blocked [''r''] [''r'', ''out''] False)
     = Inl IsADirectoryError"
  by code_simp

section \<open>What the preview leaves behind\<close>

lemma foldM_keeps_fs:
  assumes step: "\<And>x s a s' a'. x \<in> set xs \<Longrightarrow> f x (s, a) = Inr (s', a') \<Longrightarrow> s' = s"
  shows "foldM f xs (fs, a) = Inr (fs', a') \<Longrightarrow> fs' = fs"
  using step
proof (induction xs arbitrary: a)
  case Nil
  then show ?case by simp
next
  case (Cons x xs)
  from foldM_Cons_Inr[OF Cons.prems(1)] obtain s1 a1 where
    st: "f x (fs, a) = Inr (s1, a1)" and rest: "foldM f xs (s1, a1) = Inr (fs', a')"
    by (metis surj_pair)
  have "s1 = fs" using Cons.prems(2)[OF _ st] by simp
  show ?case
    by (rule Cons.IH[OF rest[unfolded \<open>s1 = fs\<close>]], rule Cons.prems(2)) simp_all
qed

lemma copy_image_preview: "copy_image out_images pfx True img (fs, n) = Inr (fs', n') \<Longrightarrow> fs' = fs"
  by (simp add: copy_image_def)

lemma remap_label_preview:
  "remap_label append_line out_labels pfx t True lab (fs, st) = Inr (fs', st') \<Longrightarrow> fs' = fs"
  by (cases st) (auto simp: remap_label_def Let_def split: sum.splits)

lemma image_step_1_preview: "image_step_1 out_images pfx True img (fs, n) = Inr (fs', n') \<Longrightarrow> fs' = fs"
  by (auto simp: image_step_1_def copy_image_preview split: if_splits)

lemma label_step_1_preview:
  "label_step_1 out_labels pfx t True lab (fs, st) = Inr (fs', st') \<Longrightarrow> fs' = fs"
  by (auto simp: label_step_1_def remap_label_preview split: if_splits)

lemma process_split_1_preview:
  assumes "process_split_1 fs d sp oi ol pfx t cc True = Inr (res, cc', fs')"
  shows "fs' = fs"
proof -
  from assms obtain imgs labs fs1 ci st where
    l1: "foldM (image_step_1 oi pfx True) imgs (fs, 0) = Inr (fs1, ci)" and
    l2: "foldM (label_step_1 ol pfx t True) labs (fs1, cc, 0, 0) = Inr (fs', st)"
    by (auto simp: process_split_1_def Let_def split: sum.splits)
  have "fs1 = fs"
    by (rule foldM_keeps_fs[OF _ l1]) (rule image_step_1_preview)
  moreover have "fs' = fs1"
    by (rule foldM_keeps_fs[OF _ l2]) (rule label_step_1_preview)
  ultimately show ?thesis by simp
qed

lemma process_split_2_preview:
  assumes "process_split_2 fs d sp oi ol pfx t cc True = Inr (res, cc', fs')"
  shows "fs' = fs"
proof -
  from assms obtain i l where fsd: "find_split_dirs fs d sp = Inr (i, l)"
    by (auto simp: process_split_2_def split: sum.splits)
  show ?thesis
  proof (cases i)
    case None
    then show ?thesis using assms fsd by (simp add: process_split_2_def)
  next
    case (Some idir)
    from assms fsd Some obtain fs1 ci where
      l1: "foldM (copy_image oi pfx True) (iter_images fs idir) (fs, 0) = Inr (fs1, ci)"
      by (auto simp: process_split_2_def split: sum.splits)
    have f1: "fs1 = fs"
      by (rule foldM_keeps_fs[OF _ l1]) (rule copy_image_preview)
    show ?thesis
    proof (cases l)
      case None
      then show ?thesis using assms fsd Some l1 f1 by (simp add: process_split_2_def)
    next
      case (Some ldir)
      from assms fsd \<open>i = Some idir\<close> Some l1 obtain st where
        l2: "foldM (remap_label append_line_2 ol pfx t True) (iter_label_files fs1 (Some ldir))
               (fs1, cc, 0, 0) = Inr (fs', st)"
        by (auto simp: process_split_2_def split: sum.splits)
      have "fs' = fs1"
        by (rule foldM_keeps_fs[OF _ l2]) (rule remap_label_preview)
      then show ?thesis using f1 by simp
    qed
  qed
qed

lemma split_step_1_preview:
  "split_step_1 out ds_path ds_name pfx t True sp (fs, a) = Inr (fs', a') \<Longrightarrow> fs' = fs"
  by (cases a) (auto simp: split_step_1_def split: sum.splits dest: process_split_1_preview)

lemma split_step_2_preview:
  "split_step_2 out ds_path pfx True sp (fs, a) = Inr (fs', a') \<Longrightarrow> fs' = fs"
  by (cases a) (auto simp: split_step_2_def split: sum.splits dest: process_split_2_preview)

lemma dataset_step_1_preview:
  assumes "dataset_step_1 root out True d (fs, a) = Inr (fs', a')"
  shows "fs' = fs"
proof -
  obtain ds_name t where d: "d = (ds_name, t)" by (cases d) auto
  obtain stats cc total where a: "a = (stats, cc, total)" by (cases a) auto
  show ?thesis
  proof (cases "exists fs (root @ [ds_name])")
    case False
    then show ?thesis using assms by (simp add: dataset_step_1_def d a)
  next
    case True
    with assms obtain pfx where
      "foldM (split_step_1 out (root @ [ds_name]) ds_name pfx t True) SPLITS
         (fs, AList.update ds_name [] stats, cc, total) = Inr (fs', a')"
      by (simp add: dataset_step_1_def d a Let_def)
    then show ?thesis
      by (rule foldM_keeps_fs[rotated]) (rule split_step_1_preview)
  qed
qed

lemma dataset_step_2_preview:
  assumes "dataset_step_2 out True ds_path (fs, a) = Inr (fs', a')"
  shows "fs' = fs"
proof -
  obtain stats cc total where a: "a = (stats, cc, total)" by (cases a) auto
  from assms obtain pfx where
    "foldM (split_step_2 out ds_path pfx True) SPLITS
       (fs, AList.update (name ds_path) [] stats, cc, total) = Inr (fs', a')"
    by (simp add: dataset_step_2_def a Let_def)
  then show ?thesis
    by (rule foldM_keeps_fs[rotated]) (rule split_step_2_preview)
qed

text \<open>In preview the file system that \<open>merge\<close> leaves is the one its first loop made.\<close>

lemma merge_1_preview:
  assumes "merge_1 fs root out True = Inr (res, fs')"
  shows "make_output_dirs fs out = Inr fs'"
proof -
  from assms obtain fs1 a where
    mk: "make_output_dirs fs out = Inr fs1" and
    l: "foldM (dataset_step_1 root out True) DATASETS (fs1, [], [], 0) = Inr (fs', a)"
    by (auto simp: merge_1_def write_data_yaml_def split: sum.splits)
  have "fs' = fs1"
    by (rule foldM_keeps_fs[OF _ l]) (rule dataset_step_1_preview)
  then show ?thesis using mk by simp
qed

lemma merge_2_preview:
  assumes "merge_2 fs root out datasets True = Inr (res, fs')"
  shows "make_output_dirs fs out = Inr fs'"
proof -
  from assms obtain fs1 a where
    mk: "make_output_dirs fs out = Inr fs1" and
    l: "foldM (dataset_step_2 out True) datasets (fs1, [], [], 0) = Inr (fs', a)"
    by (auto simp: merge_2_def write_data_yaml_def split: sum.splits)
  have "fs' = fs1"
    by (rule foldM_keeps_fs[OF _ l]) (rule dataset_step_2_preview)
  then show ?thesis using mk by simp
qed

text \<open>A root directory that holds nothing, before and after a preview with output
  \<open>/r/out\<close>.\<close>

definition bare_root :: filesystem where
  "bare_root = [([], Dir), ([''r''], Dir)]"

definition bare_root_after_preview :: filesystem where
  "bare_root_after_preview =
     [([], Dir),
      ([''r''], Dir),
      ([''r'', ''out''], Dir),
      ([''r'', ''out'', ''train''], Dir),
      ([''r'', ''out'', ''train'', ''images''], Dir),
      ([''r'', ''out'', ''train'', ''labels''], Dir),
      ([''r'', ''out'', ''valid''], Dir),
      ([''r'', ''out'', ''valid'', ''images''], Dir),
      ([''r'', ''out'', ''valid'', ''labels''], Dir),
      ([''r'', ''out'', ''test''], Dir),
      ([''r'', ''out'', ''test'', ''images''], Dir),
      ([''r'', ''out'', ''test'', ''labels''], Dir)]"

text \<open>
  Claim C6 against the code.  The first loop of \<open>merge\<close> creates the six output
  directories whatever the flag says, in both scripts: the preview of an empty root leaves
  \<open>/r/out\<close> with its \<open>train\<close>, \<open>valid\<close> and \<open>test\<close> subdirectories where there was
  nothing.  (\<open>process_split\<close> does guard its own \<open>make_dirs\<close> calls with the flag, and by
  \<open>merge_1_preview\<close> and \<open>merge_2_preview\<close> these directories are all a preview changes.)
\<close>

theorem preview_creates_output_directories:
  "merge_1 bare_root [''r''] [''r'', ''out''] True = Inr (([], [], 0), bare_root_after_preview)
   \<and> merge_2 bare_root [''r''] [''r'', ''out''] [] True = Inr (([], [], 0), bare_root_after_preview)
   \<and> \<not> exists bare_root [''r'', ''out'']
   \<and> is_dir bare_root_after_preview [''r'', ''out'', ''train'', ''images'']"
  by code_simp

section \<open>Which files count as images\<close>

text \<open>In \<open>merge_dataset_2.py\<close> the images of a split are the files below the image
  directory whose suffix, in lower case, is one of \<open>IMG_EXTS\<close>.\<close>

lemma iter_images_exact:
  assumes "is_dir fs d"
  shows "set (iter_images fs d) =
           {p. strict_prefix d p \<and> is_file fs p \<and> lower (path_suffix p) \<in> set IMG_EXTS}"
proof -
  have "p \<in> fst ` set fs" if "is_file fs p" for p
    using that by (auto simp: is_file_def split: option.splits dest!: map_of_SomeD intro: rev_image_eqI)
  then show ?thesis
    using assms by (auto simp: iter_images_def rglob_all_def)
qed

text \<open>A dataset whose train images hold one text file and nothing else.\<close>

definition notes_tree :: filesystem where
  "notes_tree =
     [([], Dir),
      ([''r''], Dir),
      ([''r'', ''credit-cards.yolov11''], Dir),
      ([''r'', ''credit-cards.yolov11'', ''train''], Dir),
      ([''r'', ''credit-cards.yolov11'', ''train'', ''images''], Dir),
      ([''r'', ''credit-cards.yolov11'', ''train'', ''images'', ''notes.txt''], File (Text ''todo'')),
      ([''r'', ''credit-cards.yolov11'', ''valid''], Dir),
      ([''r'', ''credit-cards.yolov11'', ''valid'', ''images''], Dir),
      ([''r'', ''credit-cards.yolov11'', ''test''], Dir),
      ([''r'', ''credit-cards.yolov11'', ''test'', ''images''], Dir)]"

definition one_image :: "(string \<times> split_stats) list" where
  "one_image =
     [(''train'', \<lparr>images_copied = 1, labels_copied = 0, boxes = 0\<rparr>),
      (''valid'', \<lparr>images_copied = 0, labels_copied = 0, boxes = 0\<rparr>),
      (''test'', \<lparr>images_copied = 0, labels_copied = 0, boxes = 0\<rparr>)]"

text \<open>
  Claim C8 against the code.  \<open>merge_dataset_1.py\<close> takes every file below the image
  directory: the text file \<open>notes.txt\<close>, whose suffix is not in \<open>IMG_EXTS\<close>, is copied to
  the output images and counted in \<open>images_copied\<close>.  \<open>merge_dataset_2.py\<close> on the same
  tree counts no image.
\<close>

theorem text_file_counted_as_image:
  "map_sum id fst (merge_1 notes_tree [''r''] [''r'', ''out''] False)
     = Inr ([(''credit-cards.yolov11'', one_image)], [], 0)
   \<and> (case merge_1 notes_tree [''r''] [''r'', ''out''] False of
         Inr (_, fs) \<Rightarrow> map_of fs [''r'', ''out'', ''train'', ''images'', ''credit-cards_yolov11_notes.txt'']
       | Inl _ \<Rightarrow> None) = Some (File (Text ''todo''))
   \<and> lower (path_suffix [''r'', ''credit-cards.yolov11'', ''train'', ''images'', ''notes.txt'']) = ''.txt''
   \<and> ''.txt'' \<notin> set IMG_EXTS
   \<and> map_sum id fst (merge_2 notes_tree [''r''] [''r'', ''out''] [[''r'', ''credit-cards.yolov11'']] False)
     = Inr ([(''credit-cards.yolov11'', no_files)], [], 0)"
  by code_simp

section \<open>The three totals\<close>

text \<open>The sum of \<open>stats[dataset][split]["boxes"]\<close> over one dataset, and over all.\<close>

definition inner_boxes :: "(string \<times> split_stats) list \<Rightarrow> nat" where
  "inner_boxes d = sum_list (map (\<lambda>e. boxes (snd e)) d)"

definition stats_boxes :: "stats \<Rightarrow> nat" where
  "stats_boxes st = sum_list (map (\<lambda>e. inner_boxes (snd e)) st)"

lemma sum_list_update_new:
  "k \<notin> fst ` set al \<Longrightarrow>
     sum_list (map (\<lambda>e. g (snd e)) (AList.update k v al)) = sum_list (map (\<lambda>e. g (snd e)) al) + (g v :: nat)"
  by (induction al) auto

lemma inner_boxes_update:
  "sp \<notin> fst ` set inner \<Longrightarrow> inner_boxes (AList.update sp v inner) = inner_boxes inner + boxes v"
  by (simp add: inner_boxes_def sum_list_update_new)

lemma stats_boxes_update:
  "nm \<notin> fst ` set st \<Longrightarrow> stats_boxes (AList.update nm inner st) = stats_boxes st + inner_boxes inner"
  by (simp add: stats_boxes_def sum_list_update_new)

lemma map_entry_update: "AList.map_entry k f (AList.update k v al) = AList.update k (f v) al"
  by (induction al) auto

lemma remap_label_counts:
  assumes "append_line = append_line_1 \<or> append_line = append_line_2"
    and "remap_label append_line out_labels pfx t dry_run lab (fs, cc, n, b) = Inr (fs', cc', n', b')"
  shows "count_total cc' + b = count_total cc + b'"
proof -
  from assms(2) obtain body where
    "cc' = class_counts (remap_text append_line t body cc b)"
    "b' = bbox_written (remap_text append_line t body cc b)"
    by (auto simp: remap_label_def Let_def split: sum.splits)
  then show ?thesis
    by (simp add: remap_text_effect[OF assms(1)] count_total_bumps)
qed

lemma label_step_1_counts:
  "label_step_1 out_labels pfx t dry_run lab (fs, cc, n, b) = Inr (fs', cc', n', b') \<Longrightarrow>
     count_total cc' + b = count_total cc + b'"
  using remap_label_counts[of append_line_1]
  by (auto simp: label_step_1_def split: if_splits)

lemma labels_loop_counts:
  assumes step: "\<And>x fs cc n b fs' cc' n' b'. f x (fs, cc, n, b) = Inr (fs', cc', n', b') \<Longrightarrow>
      count_total cc' + b = count_total cc + (b' :: nat)"
  shows "foldM f xs (fs, cc, n, b) = Inr (fs', cc', n', b') \<Longrightarrow>
     count_total cc' + b = count_total cc + b'"
proof (induction xs arbitrary: fs cc n b)
  case Nil
  then show ?case by simp
next
  case (Cons x xs)
  from foldM_Cons_Inr[OF Cons.prems] obtain fs1 cc1 n1 b1 where
    st: "f x (fs, cc, n, b) = Inr (fs1, cc1, n1, b1)" and
    rest: "foldM f xs (fs1, cc1, n1, b1) = Inr (fs', cc', n', b')"
    by (metis prod_cases4)
  from step[OF st] Cons.IH[OF rest] show ?case by simp
qed

lemma process_split_1_counts:
  assumes "process_split_1 fs d sp oi ol pfx t cc dry_run = Inr ((ci, cl, bx), cc', fs')"
  shows "count_total cc' = count_total cc + bx"
proof -
  from assms obtain labs fs1 where
    "foldM (label_step_1 ol pfx t dry_run) labs (fs1, cc, 0, 0) = Inr (fs', cc', cl, bx)"
    by (auto simp: process_split_1_def Let_def split: sum.splits)
  from labels_loop_counts[OF _ this] label_step_1_counts show ?thesis
    by fastforce
qed

lemma process_split_2_counts:
  assumes "process_split_2 fs d sp oi ol pfx t cc dry_run = Inr ((ci, cl, bx), cc', fs')"
  shows "count_total cc' = count_total cc + bx"
proof -
  from assms obtain i l where fsd: "find_split_dirs fs d sp = Inr (i, l)"
    by (auto simp: process_split_2_def split: sum.splits)
  show ?thesis
  proof (cases "i = None \<or> l = None")
    case True
    then show ?thesis
      using assms fsd by (auto simp: process_split_2_def split: sum.splits option.splits)
  next
    case False
    with assms fsd obtain labs fs1 where
      "foldM (remap_label append_line_2 ol pfx t dry_run) labs (fs1, cc, 0, 0) = Inr (fs', cc', cl, bx)"
      by (auto simp: process_split_2_def split: sum.splits)
    from labels_loop_counts[OF _ this] remap_label_counts[of append_line_2] show ?thesis
      by fastforce
  qed
qed

text \<open>What one pass over the splits of a dataset does to the statistics.\<close>

definition split_effect ::
  "(string \<Rightarrow> merge_state \<Rightarrow> error + merge_state) \<Rightarrow> string \<Rightarrow> bool" where
  "split_effect step nm =
     (\<forall>sp fs st cc tot fs' st' cc' tot'.
        step sp (fs, st, cc, tot) = Inr (fs', st', cc', tot') \<longrightarrow>
        (\<exists>v. st' = AList.map_entry nm (AList.update sp v) st
            \<and> tot' = tot + boxes v
            \<and> count_total cc' = count_total cc + boxes v))"

lemma split_step_1_effect: "split_effect (split_step_1 out ds_path nm pfx t dry_run) nm"
  unfolding split_effect_def split_step_1_def
  by (auto split: sum.splits dest!: process_split_1_counts)

lemma split_step_2_effect: "split_effect (split_step_2 out ds_path pfx dry_run) (name ds_path)"
  unfolding split_effect_def split_step_2_def
  by (auto split: sum.splits dest!: process_split_2_counts)

lemma splits_loop_totals:
  assumes eff: "split_effect step nm"
  shows "distinct sps \<Longrightarrow> set sps \<inter> fst ` set inner = {} \<Longrightarrow>
     foldM step sps (fs, AList.update nm inner st, cc, tot) = Inr (fs', st', cc', tot') \<Longrightarrow>
     \<exists>inner'. st' = AList.update nm inner' st
        \<and> tot' + inner_boxes inner = tot + inner_boxes inner'
        \<and> count_total cc' + inner_boxes inner = count_total cc + inner_boxes inner'"
proof (induction sps arbitrary: fs inner cc tot)
  case Nil
  then show ?case by auto
next
  case (Cons sp sps)
  from foldM_Cons_Inr[OF Cons.prems(3)] obtain fs1 st1 cc1 tot1 where
    st: "step sp (fs, AList.update nm inner st, cc, tot) = Inr (fs1, st1, cc1, tot1)" and
    rest: "foldM step sps (fs1, st1, cc1, tot1) = Inr (fs', st', cc', tot')"
    by (metis prod_cases4)
  from eff[unfolded split_effect_def, rule_format, OF st] obtain v where
    v: "st1 = AList.update nm (AList.update sp v inner) st"
       "tot1 = tot + boxes v" "count_total cc1 = count_total cc + boxes v"
    by (auto simp: map_entry_update)
  have new: "sp \<notin> fst ` set inner" using Cons.prems(2) by auto
  have dj: "set sps \<inter> fst ` set (AList.update sp v inner) = {}"
    using Cons.prems(1,2) by (auto simp: dom_update)
  from Cons.IH[OF _ dj rest[unfolded v(1)]] Cons.prems(1) obtain inner' where
    "st' = AList.update nm inner' st"
    "tot' + inner_boxes (AList.update sp v inner) = tot1 + inner_boxes inner'"
    "count_total cc' + inner_boxes (AList.update sp v inner) = count_total cc1 + inner_boxes inner'"
    by auto
  then show ?case
    using v new by (auto simp: inner_boxes_update)
qed

lemma SPLITS_distinct: "distinct SPLITS"
  by (simp add: SPLITS_def)

text \<open>What one dataset does: nothing, or a fresh entry that holds its boxes.\<close>

definition dataset_effect :: "merge_state \<Rightarrow> merge_state \<Rightarrow> string \<Rightarrow> bool" where
  "dataset_effect s s' nm =
     (case (s, s') of ((fs, st, cc, tot), (fs', st', cc', tot')) \<Rightarrow>
        count_total cc' + tot = count_total cc + tot'
        \<and> ((st' = st \<and> tot' = tot)
           \<or> (\<exists>inner. st' = AList.update nm inner st \<and> tot' = tot + inner_boxes inner)))"

lemma dataset_step_1_effect:
  assumes "dataset_step_1 root out dry_run d s = Inr s'"
  shows "dataset_effect s s' (fst d)"
proof -
  obtain nm t where d: "d = (nm, t)" by (cases d) auto
  obtain fs st cc tot where s: "s = (fs, st, cc, tot)" by (cases s) auto
  obtain fs' st' cc' tot' where s': "s' = (fs', st', cc', tot')" by (cases s') auto
  show ?thesis
  proof (cases "exists fs (root @ [nm])")
    case False
    then show ?thesis using assms by (auto simp: dataset_step_1_def dataset_effect_def d s s')
  next
    case True
    with assms obtain pfx where
      l: "foldM (split_step_1 out (root @ [nm]) nm pfx t dry_run) SPLITS
            (fs, AList.update nm [] st, cc, tot) = Inr (fs', st', cc', tot')"
      by (simp add: dataset_step_1_def d s s' Let_def)
    from splits_loop_totals[OF split_step_1_effect SPLITS_distinct _ l]
    show ?thesis by (auto simp: dataset_effect_def d s s' inner_boxes_def)
  qed
qed

lemma dataset_step_2_effect:
  assumes "dataset_step_2 out dry_run ds_path s = Inr s'"
  shows "dataset_effect s s' (name ds_path)"
proof -
  obtain fs st cc tot where s: "s = (fs, st, cc, tot)" by (cases s) auto
  obtain fs' st' cc' tot' where s': "s' = (fs', st', cc', tot')" by (cases s') auto
  from assms obtain pfx where
    l: "foldM (split_step_2 out ds_path pfx dry_run) SPLITS
          (fs, AList.update (name ds_path) [] st, cc, tot) = Inr (fs', st', cc', tot')"
    by (simp add: dataset_step_2_def s s' Let_def)
  from splits_loop_totals[OF split_step_2_effect SPLITS_distinct _ l]
  show ?thesis by (auto simp: dataset_effect_def s s' inner_boxes_def)
qed

lemma datasets_loop_totals:
  assumes step: "\<And>x s s'. f x s = Inr s' \<Longrightarrow> dataset_effect s s' (key x)"
  shows "foldM f xs (fs, st, cc, tot) = Inr (fs', st', cc', tot') \<Longrightarrow>
     count_total cc = tot \<Longrightarrow>
     count_total cc' = tot'
     \<and> (distinct (map key xs) \<longrightarrow> key ` set xs \<inter> fst ` set st = {} \<longrightarrow>
          stats_boxes st = tot \<longrightarrow> stats_boxes st' = tot')"
proof (induction xs arbitrary: fs st cc tot)
  case Nil
  then show ?case by simp
next
  case (Cons x xs)
  from foldM_Cons_Inr[OF Cons.prems(1)] obtain fs1 st1 cc1 tot1 where
    st: "f x (fs, st, cc, tot) = Inr (fs1, st1, cc1, tot1)" and
    rest: "foldM f xs (fs1, st1, cc1, tot1) = Inr (fs', st', cc', tot')"
    by (metis prod_cases4)
  have eff: "dataset_effect (fs, st, cc, tot) (fs1, st1, cc1, tot1) (key x)"
    using st by (rule step)
  have c: "count_total cc1 + tot = count_total cc + tot1"
    using eff unfolding dataset_effect_def by simp
  have e: "(st1 = st \<and> tot1 = tot)
        \<or> (\<exists>inner. st1 = AList.update (key x) inner st \<and> tot1 = tot + inner_boxes inner)"
    using eff unfolding dataset_effect_def by simp
  have c1: "count_total cc1 = tot1"
    using c Cons.prems(2) by arith
  note ih = Cons.IH[OF rest c1]
  have "stats_boxes st' = tot'"
    if d: "distinct (map key (x # xs))" and dj: "key ` set (x # xs) \<inter> fst ` set st = {}"
      and sb: "stats_boxes st = tot"
  proof -
    have nx: "key x \<notin> key ` set xs" and dxs: "distinct (map key xs)"
      using d by simp_all
    have nst: "key x \<notin> fst ` set st" and djxs: "key ` set xs \<inter> fst ` set st = {}"
      using dj by simp_all
    from e consider "st1 = st" "tot1 = tot"
      | inner where "st1 = AList.update (key x) inner st" "tot1 = tot + inner_boxes inner"
      by blast
    then have "key ` set xs \<inter> fst ` set st1 = {} \<and> stats_boxes st1 = tot1"
    proof cases
      case 1
      then show ?thesis using djxs sb by simp
    next
      case 2
      have k: "fst ` set st1 = insert (key x) (fst ` set st)"
        by (simp add: 2(1) dom_update)
      have "key ` set xs \<inter> fst ` set st1 = {}"
        unfolding k using nx djxs by simp
      moreover have "stats_boxes st1 = tot1"
        by (simp add: 2 stats_boxes_update[OF nst] sb)
      ultimately show ?thesis by simp
    qed
    then show ?thesis
      using ih[THEN conjunct2] dxs by blast
  qed
  then show ?case using ih[THEN conjunct1] by blast
qed

lemma merge_1_totals:
  assumes run: "merge_1 fs root out dry_run = Inr ((stats, cc, total_boxes), fs')"
  shows "total_boxes = stats_boxes stats \<and> total_boxes = count_total cc"
proof -
  from run obtain fs1 fs2 where
    l: "foldM (dataset_step_1 root out dry_run) DATASETS (fs1, [], [], 0) = Inr (fs2, stats, cc, total_boxes)"
    by (auto simp: merge_1_def split: sum.splits)
  have d: "distinct (map fst DATASETS)" by (simp add: DATASETS_def)
  from datasets_loop_totals[of "dataset_step_1 root out dry_run" fst, OF dataset_step_1_effect l] d
  show ?thesis
    by (simp add: count_total_def stats_boxes_def)
qed

lemma merge_2_totals:
  assumes run: "merge_2 fs root out datasets dry_run = Inr ((stats, cc, total_boxes), fs')"
  shows "total_boxes = count_total cc
         \<and> (distinct (map name datasets) \<longrightarrow> total_boxes = stats_boxes stats)"
proof -
  from run obtain fs1 fs2 where
    l: "foldM (dataset_step_2 out dry_run) datasets (fs1, [], [], 0) = Inr (fs2, stats, cc, total_boxes)"
    by (auto simp: merge_2_def split: sum.splits)
  from datasets_loop_totals[of "dataset_step_2 out dry_run" name, OF dataset_step_2_effect l]
  show ?thesis
    by (simp add: count_total_def stats_boxes_def)
qed

text \<open>
  Claim C10, as the code has it.  Whenever \<open>merge\<close> returns, in either script and with
  either value of the flag, \<open>total_boxes\<close> is the sum of the values of \<open>class_counts\<close>.
  In \<open>merge_dataset_1.py\<close> it is also the sum of the \<open>boxes\<close> entries of \<open>stats\<close>; in
  \<open>merge_dataset_2.py\<close> it is when no two dataset directories have the same name.
\<close>

theorem totals_agree:
  "(merge_1 fs root out dry_run = Inr ((stats, cc, total_boxes), fs') \<longrightarrow>
      total_boxes = stats_boxes stats \<and> total_boxes = count_total cc)
   \<and> (merge_2 fs root out datasets dry_run = Inr ((stats, cc, total_boxes), fs') \<longrightarrow>
      total_boxes = count_total cc
      \<and> (distinct (map name datasets) \<longrightarrow> total_boxes = stats_boxes stats))"
  using merge_1_totals merge_2_totals by blast

theorem totals_agree_witness:
  "map_sum id fst (merge_1 card_tree [''r''] [''r'', ''out''] False)
     = Inr ([(''credit-cards.yolov11'', one_image_two_boxes)], [(0, 2)], 2)
   \<and> stats_boxes [(''credit-cards.yolov11'', one_image_two_boxes)] = 2
   \<and> count_total [(0, 2)] = 2
   \<and> map_sum id fst (merge_2 id_tree [''r''] [''r'', ''out''] [[''r'', ''a.yolov11'']] False)
     = Inr ([(''a.yolov11'', one_image_two_boxes)], [(1, 2)], 2)
   \<and> distinct (map name [[''r'', ''a.yolov11'']])
   \<and> stats_boxes [(''a.yolov11'', one_image_two_boxes)] = 2
   \<and> count_total [(1, 2)] = 2"
proof -
  let ?s1 = "[(''credit-cards.yolov11'', one_image_two_boxes)]"
  let ?s2 = "[(''a.yolov11'', one_image_two_boxes)]"
  have h1: "map_sum id fst (merge_1 card_tree [''r''] [''r'', ''out''] False) = Inr (?s1, [(0, 2)], 2)"
    by code_simp
  have h2: "map_sum id fst (merge_2 id_tree [''r''] [''r'', ''out''] [[''r'', ''a.yolov11'']] False)
      = Inr (?s2, [(1, 2)], 2)"
    by code_simp
  have d: "distinct (map name [[''r'', ''a.yolov11'']])" by simp
  from h1 obtain fs1 where
    r1: "merge_1 card_tree [''r''] [''r'', ''out''] False = Inr ((?s1, [(0, 2)], 2), fs1)"
    by (cases "merge_1 card_tree [''r''] [''r'', ''out''] False") auto
  from h2 obtain fs2 where
    r2: "merge_2 id_tree [''r''] [''r'', ''out''] [[''r'', ''a.yolov11'']] False
           = Inr ((?s2, [(1, 2)], 2), fs2)"
    by (cases "merge_2 id_tree [''r''] [''r'', ''out''] [[''r'', ''a.yolov11'']] False") auto
  note t1 = totals_agree[where fs = card_tree and root = "[''r'']" and out = "[''r'', ''out'']"
        and dry_run = False and stats = ?s1 and cc = "[(0, 2)]" and total_boxes = 2 and fs' = fs1,
        THEN conjunct1, THEN mp, OF r1]
  note t2 = totals_agree[where fs = id_tree and root = "[''r'']" and out = "[''r'', ''out'']"
        and datasets = "[[''r'', ''a.yolov11'']]"
        and dry_run = False and stats = ?s2 and cc = "[(1, 2)]" and total_boxes = 2 and fs' = fs2,
        THEN conjunct2, THEN mp, OF r2]
  note e1 = t1[THEN conjunct1, symmetric] and e2 = t1[THEN conjunct2, symmetric]
    and e3 = t2[THEN conjunct1, symmetric] and e4 = t2[THEN conjunct2, THEN mp, OF d, symmetric]
  show ?thesis
    by (intro conjI) (rule h1 e1 e2 h2 d e3 e4)+
qed

text \<open>
  Claim C10 as stated fails in \<open>merge_dataset_2.py\<close> when a dataset directory comes
  twice in the list (two patterns that match it): its boxes are counted twice in
  \<open>total_boxes\<close> and in \<open>class_counts\<close>, and \<open>stats\<close> keeps one entry for its name.
\<close>

theorem totals_disagree_counterexample:
  "map_sum id fst
     (merge_2 id_tree [''r''] [''r'', ''out''] [[''r'', ''a.yolov11''], [''r'', ''a.yolov11'']] True)
     = Inr ([(''a.yolov11'', one_image_two_boxes)], [(1, 4)], 4)
   \<and> stats_boxes [(''a.yolov11'', one_image_two_boxes)] = 2"
  by code_simp

section \<open>Which directories are datasets\<close>

text \<open>A split resolves for a dataset directory when, for one of its aliases, the image
  directory of that name is there; a dataset is complete when train, valid and test resolve.\<close>

definition split_resolves :: "filesystem \<Rightarrow> path \<Rightarrow> string \<Rightarrow> bool" where
  "split_resolves fs d k =
     (case map_of SPLIT_ALIASES k of
        None \<Rightarrow> False
      | Some aliases \<Rightarrow> list_ex (\<lambda>a. is_dir fs (d @ [a, ''images''])) aliases)"

definition all_splits_resolve :: "filesystem \<Rightarrow> path \<Rightarrow> bool" where
  "all_splits_resolve fs d = list_all (split_resolves fs d) SPLITS"

lemma find_alias_fst:
  "fst (find_alias fs d aliases) \<noteq> None \<longleftrightarrow> list_ex (\<lambda>a. is_dir fs (d @ [a, ''images''])) aliases"
  by (induction aliases) (auto simp: Let_def is_dir_def exists_def)

lemma looks_usable_eq: "looks_usable fs d = Inr (all_splits_resolve fs d)"
proof -
  have k: "find_split_dirs fs d k = Inr (find_alias fs d as)" if "map_of SPLIT_ALIASES k = Some as" for k as
    using that by (simp add: find_split_dirs_def)
  have t: "map_of SPLIT_ALIASES ''train'' = Some [''train'']"
    and v: "map_of SPLIT_ALIASES ''valid'' = Some [''valid'', ''val'']"
    and e: "map_of SPLIT_ALIASES ''test'' = Some [''test'']"
    by (simp_all add: SPLIT_ALIASES_def)
  have r: "split_resolves fs d k = (fst (find_alias fs d as) \<noteq> None)"
    if "map_of SPLIT_ALIASES k = Some as" for k as
    using that find_alias_fst[of fs d as] by (simp add: split_resolves_def)
  show ?thesis
    unfolding looks_usable_def k[OF t] k[OF v] k[OF e] all_splits_resolve_def SPLITS_def
    by (simp add: r[OF t] r[OF v] r[OF e] split: prod.splits)
qed

lemma keep_usable_eq: "keep_usable fs found = Inr (filter (all_splits_resolve fs) found)"
proof -
  have "foldM (\<lambda>d usable. case looks_usable fs d of Inl e \<Rightarrow> Inl e
                 | Inr ok \<Rightarrow> Inr (if ok then usable @ [d] else usable)) found acc
        = Inr (acc @ filter (all_splits_resolve fs) found)" for acc
    by (induction found arbitrary: acc) (simp_all add: looks_usable_eq)
  then show ?thesis by (simp add: keep_usable_def)
qed

text \<open>
  Claim C5, as the code has it.  The loop that fills \<open>usable\<close> runs after both branches
  of \<open>resolve_datasets\<close>: with patterns and without, a candidate is kept exactly when its
  three splits resolve by their aliases.  With patterns the candidates are the matched
  directories; without, they are the directories directly in the root whose name, in lower
  case, ends in \<open>.yolov11\<close>.
\<close>

theorem resolve_datasets_checks_splits_in_both_modes:
  "resolve_datasets glob fs root (Some (g # gs)) =
     Inr (filter (all_splits_resolve fs)
            (concat (map (\<lambda>pattern. filter (is_dir fs) (glob fs root pattern)) (g # gs))))
   \<and> (is_dir fs root \<longrightarrow>
        resolve_datasets glob fs root None = resolve_datasets glob fs root (Some [])
        \<and> resolve_datasets glob fs root None =
          Inr (filter (all_splits_resolve fs)
                 (filter (\<lambda>p. is_dir fs p \<and> suffix ''.yolov11'' (lower (name p)))
                    (filter (\<lambda>p. p \<noteq> [] \<and> parent p = root) (map fst fs)))))"
  by (simp add: resolve_datasets_def keep_usable_eq iterdir_def is_dir_def)

text \<open>A root with a complete dataset \<open>a.yolov11\<close>, whose valid split goes by the alias
  \<open>val\<close>, and a directory \<open>b.yolov11\<close> that has a train split only.\<close>

definition two_candidates :: filesystem where
  "two_candidates =
     [([], Dir),
      ([''r''], Dir),
      ([''r'', ''a.yolov11''], Dir),
      ([''r'', ''a.yolov11'', ''train''], Dir),
      ([''r'', ''a.yolov11'', ''train'', ''images''], Dir),
      ([''r'', ''a.yolov11'', ''val''], Dir),
      ([''r'', ''a.yolov11'', ''val'', ''images''], Dir),
      ([''r'', ''a.yolov11'', ''test''], Dir),
      ([''r'', ''a.yolov11'', ''test'', ''images''], Dir),
      ([''r'', ''b.yolov11''], Dir),
      ([''r'', ''b.yolov11'', ''train''], Dir),
      ([''r'', ''b.yolov11'', ''train'', ''images''], Dir)]"

theorem resolve_datasets_checks_splits_in_both_modes_witness:
  "is_dir two_candidates [''r'']
   \<and> resolve_datasets glob_literal two_candidates [''r''] None = Inr [[''r'', ''a.yolov11'']]
   \<and> resolve_datasets glob_literal two_candidates [''r''] (Some []) = Inr [[''r'', ''a.yolov11'']]
   \<and> filter (all_splits_resolve two_candidates)
        (filter (\<lambda>p. is_dir two_candidates p \<and> suffix ''.yolov11'' (lower (name p)))
           (filter (\<lambda>p. p \<noteq> [] \<and> parent p = [''r'']) (map fst two_candidates)))
      = [[''r'', ''a.yolov11'']]"
proof -
  have h: "is_dir two_candidates [''r'']" by code_simp
  have ev: "filter (all_splits_resolve two_candidates)
        (filter (\<lambda>p. is_dir two_candidates p \<and> suffix ''.yolov11'' (lower (name p)))
           (filter (\<lambda>p. p \<noteq> [] \<and> parent p = [''r'']) (map fst two_candidates)))
      = [[''r'', ''a.yolov11'']]"
    by code_simp
  note t = resolve_datasets_checks_splits_in_both_modes[where fs = two_candidates
      and root = "[''r'']" and glob = glob_literal, THEN conjunct2, THEN mp, OF h]
  have a: "resolve_datasets glob_literal two_candidates [''r''] None = Inr [[''r'', ''a.yolov11'']]"
    using t[THEN conjunct2] unfolding ev .
  have b: "resolve_datasets glob_literal two_candidates [''r''] (Some []) = Inr [[''r'', ''a.yolov11'']]"
    using t[THEN conjunct1] a by simp
  show ?thesis
    by (intro conjI) (rule h a b ev)+
qed

text \<open>
  Claim C5 as stated fails for the patterns: \<open>b.yolov11\<close> is a directory and the pattern
  matches it, yet it is left out because its valid and test splits are missing.
\<close>

theorem pattern_match_excluded_counterexample:
  "glob_literal two_candidates [''r''] ''b.yolov11'' = [[''r'', ''b.yolov11'']]
   \<and> is_dir two_candidates [''r'', ''b.yolov11'']
   \<and> resolve_datasets glob_literal two_candidates [''r''] (Some [''b.yolov11'']) = Inr []
   \<and> resolve_datasets glob_literal two_candidates [''r''] (Some [''b.yolov11'', ''a.yolov11''])
       = Inr [[''r'', ''a.yolov11'']]"
  by code_simp

section \<open>\<open>export_to_coreml.py\<close>\<close>

text \<open>The name that \<open>next_free_path\<close> tries in round \<open>i\<close>.\<close>

definition candidate :: "path \<Rightarrow> string \<Rightarrow> string \<Rightarrow> nat \<Rightarrow> path" where
  "candidate par st suf i = par @ [st @ ''_'' @ str (int i) @ suf]"

lemma candidate_inj: "candidate par st suf i = candidate par st suf j \<Longrightarrow> i = j"
  by (auto simp: candidate_def dest: str_inj)

lemma finite_taken: "finite {j. exists fs (candidate par st suf j)}"
proof -
  have "finite (dom (map_of fs))" by (rule finite_dom_map_of)
  moreover have "inj (candidate par st suf)"
    by (rule injI) (rule candidate_inj)
  ultimately have "finite (candidate par st suf -` dom (map_of fs))"
    by (rule finite_vimageI)
  moreover have "{j. exists fs (candidate par st suf j)} = candidate par st suf -` dom (map_of fs)"
    by (auto simp: exists_def)
  ultimately show ?thesis by simp
qed

text \<open>The loop \<open>while True\<close> of \<open>next_free_path\<close>.  It ends because the file system
  holds finitely many names and the candidates are all different.\<close>

function next_free_loop :: "filesystem \<Rightarrow> path \<Rightarrow> string \<Rightarrow> string \<Rightarrow> nat \<Rightarrow> path" where
  "next_free_loop fs par st suf i =
     (if \<not> exists fs (candidate par st suf i) then candidate par st suf i
      else next_free_loop fs par st suf (i + 1))"
  by pat_completeness auto
termination
proof (relation "measure (\<lambda>(fs, par, st, suf, i). card {j. i \<le> j \<and> exists fs (candidate par st suf j)})")
  show "wf (measure (\<lambda>(fs, par, st, suf, i). card {j. i \<le> j \<and> exists fs (candidate par st suf j)}))"
    by simp
next
  fix fs :: filesystem and par st suf i
  assume "\<not> \<not> exists fs (candidate par st suf i)"
  then have ex: "exists fs (candidate par st suf i)" by simp
  let ?A = "{j. i + 1 \<le> j \<and> exists fs (candidate par st suf j)}"
  let ?B = "{j. i \<le> j \<and> exists fs (candidate par st suf j)}"
  have "finite ?B"
    by (rule finite_subset[OF _ finite_taken[of fs par st suf]]) auto
  moreover have "?A \<subset> ?B"
  proof -
    have "i \<in> ?B" and "i \<notin> ?A" and "?A \<subseteq> ?B"
      using ex by auto
    then show ?thesis by blast
  qed
  ultimately have "card ?A < card ?B"
    by (rule psubset_card_mono)
  then show "((fs, par, st, suf, i + 1), (fs, par, st, suf, i))
      \<in> measure (\<lambda>(fs, par, st, suf, i). card {j. i \<le> j \<and> exists fs (candidate par st suf j)})"
    by simp
qed

declare next_free_loop.simps [simp del]

definition next_free_path :: "filesystem \<Rightarrow> path \<Rightarrow> path" where
  "next_free_path fs base =
     (if \<not> exists fs base then base
      else next_free_loop fs (parent base) (stem base) (path_suffix base) 1)"

text \<open>What \<open>model.export\<close> returns: a path or a list of paths.\<close>

datatype export_out = OnePath path | PathList "path list"

definition find_coreml_path :: "export_out \<Rightarrow> error + path" where
  "find_coreml_path x =
     (case x of
        PathList items \<Rightarrow>
          (case find (\<lambda>p. path_suffix p = ''.mlmodel'' \<or> path_suffix p = ''.mlpackage'') items of
             Some p \<Rightarrow> Inr p
           | None \<Rightarrow> (case items of [] \<Rightarrow> Inl IndexError | item # _ \<Rightarrow> Inr item))
      | OnePath p \<Rightarrow> Inr p)"

text \<open>\<open>shutil.copytree(src, dst)\<close>: the destination must not exist; it is created, and
  everything below the source is written below it.  A destination inside the source, where
  Python keeps descending, is not modelled and reported as \<open>RecursionError\<close>.\<close>

definition copytree :: "filesystem \<Rightarrow> path \<Rightarrow> path \<Rightarrow> error + filesystem" where
  "copytree fs src dst =
     (if \<not> exists fs src then Inl FileNotFoundError
      else if \<not> is_dir fs src then Inl NotADirectoryError
      else if prefix src dst then Inl RecursionError
      else if exists fs dst then Inl FileExistsError
      else
        case make_dirs fs dst of
          Inl e \<Rightarrow> Inl e
        | Inr fs1 \<Rightarrow>
            Inr (fold (\<lambda>(p, n). AList.update (dst @ drop (length src) p) n)
                   (filter (\<lambda>(p, n). strict_prefix src p) fs) fs1))"

text \<open>The last step of \<open>main\<close>: copying to the final name.\<close>

definition copy_to_target :: "filesystem \<Rightarrow> path \<Rightarrow> path \<Rightarrow> error + filesystem" where
  "copy_to_target fs produced target =
     (if produced \<noteq> target then
        if is_dir fs produced then
          (if exists fs target then Inl (SystemExit 3) else copytree fs produced target)
        else copy2 fs produced target
      else Inr fs)"

text \<open>\<open>main\<close>.  The export library is a parameter: \<open>run_export\<close> is \<open>None\<close> when it
  cannot be imported, and otherwise gives what \<open>YOLO(weights).export(...)\<close> returns and the
  file system it leaves.  Paths are absolute, \<open>cwd\<close> is the current directory.\<close>

definition main ::
  "(filesystem \<Rightarrow> error + export_out \<times> filesystem) option \<Rightarrow> filesystem \<Rightarrow> path \<Rightarrow> path \<Rightarrow>
     string \<Rightarrow> error + path \<times> filesystem" where
  "main run_export fs cwd weights_p outname =
     (case run_export of
        None \<Rightarrow> Inl ImportError
      | Some export \<Rightarrow>
          if \<not> exists fs weights_p then Inl (SystemExit 1)
          else
            case export fs of
              Inl e \<Rightarrow> Inl e
            | Inr (export_out, fs1) \<Rightarrow>
                (case find_coreml_path export_out of
                   Inl e \<Rightarrow> Inl e
                 | Inr produced \<Rightarrow>
                     if \<not> exists fs1 produced then Inl (SystemExit 2)
                     else
                       let ext = path_suffix produced;
                           target = next_free_path fs1 (cwd @ [outname @ ext])
                       in case copy_to_target fs1 produced target of
                            Inl e \<Rightarrow> Inl e
                          | Inr fs2 \<Rightarrow> Inr (target, fs2)))"

lemma next_free_loop_free: "\<not> exists fs (next_free_loop fs par st suf i)"
  by (induction fs par st suf i rule: next_free_loop.induct)
     (subst next_free_loop.simps, simp)

lemma next_free_loop_least:
  "\<exists>k \<ge> i. next_free_loop fs par st suf i = candidate par st suf k
      \<and> (\<forall>j. i \<le> j \<and> j < k \<longrightarrow> exists fs (candidate par st suf j))"
proof (induction fs par st suf i rule: next_free_loop.induct)
  case (1 fs par st suf i)
  show ?case
  proof (cases "exists fs (candidate par st suf i)")
    case False
    then have "next_free_loop fs par st suf i = candidate par st suf i"
      by (subst next_free_loop.simps) simp
    then show ?thesis by (intro exI[of _ i]) auto
  next
    case True
    from 1[OF _] True obtain k where k: "i + 1 \<le> k"
      "next_free_loop fs par st suf (i + 1) = candidate par st suf k"
      "\<forall>j. i + 1 \<le> j \<and> j < k \<longrightarrow> exists fs (candidate par st suf j)"
      by auto
    have "next_free_loop fs par st suf i = candidate par st suf k"
      using True k(2) by (subst next_free_loop.simps) simp
    moreover have "exists fs (candidate par st suf j)" if "i \<le> j" "j < k" for j
      using that True k(3) by (cases "j = i") auto
    ultimately show ?thesis
      using k(1) by (intro exI[of _ k]) auto
  qed
qed

text \<open>A file system is a tree when every entry but the root lies in a directory.\<close>

definition is_tree :: "filesystem \<Rightarrow> bool" where
  "is_tree fs = list_all (\<lambda>e. fst e = [] \<or> is_dir fs (parent (fst e))) fs"

lemma is_tree_parent: "is_tree fs \<Longrightarrow> exists fs (p @ [c]) \<Longrightarrow> is_dir fs p"
proof -
  assume t: "is_tree fs" and e: "exists fs (p @ [c])"
  from e obtain n where "map_of fs (p @ [c]) = Some n" by (auto simp: exists_def)
  then have "(p @ [c], n) \<in> set fs" by (rule map_of_SomeD)
  with t show ?thesis by (auto simp: is_tree_def list_all_iff parent_def)
qed

lemma is_tree_below: "is_tree fs \<Longrightarrow> \<not> exists fs d \<Longrightarrow> \<not> exists fs (d @ r)"
proof (induction r rule: rev_induct)
  case Nil
  then show ?case by simp
next
  case (snoc c r)
  show ?case
  proof
    assume "exists fs (d @ r @ [c])"
    then have "is_dir fs (d @ r)"
      using is_tree_parent[OF snoc.prems(1), of "d @ r" c] by simp
    then have "exists fs (d @ r)" by (simp add: is_dir_def exists_def)
    with snoc show False by simp
  qed
qed

lemma fold_update_other:
  "p \<notin> h ` fst ` set es \<Longrightarrow>
     map_of (fold (\<lambda>(q, n). AList.update (h q) n) es fs) p = map_of fs p"
  by (induction es arbitrary: fs) (auto simp: update_conv')

lemma adds_dirs_keeps: "adds_dirs fs fs' \<Longrightarrow> map_of fs p = Some n \<Longrightarrow> map_of fs' p = Some n"
  unfolding adds_dirs_def by (metis option.distinct(1))

lemma copytree_keeps:
  assumes t: "is_tree fs" and c: "copytree fs src dst = Inr fs'" and p: "map_of fs p = Some n"
  shows "map_of fs' p = Some n"
proof -
  from c obtain fs1 where ne: "\<not> exists fs dst" and mk: "make_dirs fs dst = Inr fs1" and
    fs': "fs' = fold (\<lambda>(q, n). AList.update (dst @ drop (length src) q) n)
                  (filter (\<lambda>(q, n). strict_prefix src q) fs) fs1"
    by (auto simp: copytree_def split: if_splits sum.splits)
  have "p \<notin> (\<lambda>q. dst @ drop (length src) q) ` fst ` set (filter (\<lambda>(q, n). strict_prefix src q) fs)"
  proof
    assume "p \<in> (\<lambda>q. dst @ drop (length src) q) ` fst ` set (filter (\<lambda>(q, n). strict_prefix src q) fs)"
    then obtain r where "p = dst @ r" by auto
    then have "\<not> exists fs p" using is_tree_below[OF t ne] by simp
    then show False using p by (simp add: exists_def)
  qed
  then have "map_of fs' p = map_of fs1 p"
    unfolding fs' by (rule fold_update_other)
  then show ?thesis
    using adds_dirs_keeps[OF make_dirs_adds[OF mk] p] by simp
qed

lemma copy2_keeps:
  assumes ne: "\<not> exists fs dst" and c: "copy2 fs src dst = Inr fs'" and p: "map_of fs p = Some n"
  shows "map_of fs' p = Some n"
proof -
  have nd: "\<not> is_dir fs dst" using ne by (simp add: is_dir_def exists_def)
  from c nd obtain x where "write_file fs dst x = Inr fs'"
    by (auto simp: copy2_def Let_def split: if_splits option.splits node.splits)
  then have "fs' = AList.update dst (File x) fs"
    by (auto simp: write_file_def split: if_splits)
  moreover have "p \<noteq> dst" using ne p by (auto simp: exists_def)
  ultimately show ?thesis using p by (simp add: update_conv')
qed

lemma copy_to_target_keeps:
  assumes "is_tree fs" and "\<not> exists fs target" and "copy_to_target fs produced target = Inr fs'"
    and "map_of fs p = Some n"
  shows "map_of fs' p = Some n"
  using assms copytree_keeps[of fs produced target fs' p n] copy2_keeps[of fs target produced fs' p n]
  by (auto simp: copy_to_target_def split: if_splits)

lemma next_free_path_free: "\<not> exists fs (next_free_path fs base)"
  by (simp add: next_free_path_def next_free_loop_free)

lemma foldM_Inl: "foldM f xs s = Inl e \<Longrightarrow> \<exists>x s'. x \<in> set xs \<and> f x s' = Inl e"
proof (induction xs arbitrary: s)
  case Nil
  then show ?case by simp
next
  case (Cons x xs)
  show ?case
  proof (cases "f x s")
    case (Inl e')
    then show ?thesis using Cons.prems by auto
  next
    case (Inr s1)
    then have "foldM f xs s1 = Inl e" using Cons.prems by simp
    from Cons.IH[OF this] show ?thesis by auto
  qed
qed

lemma make_dirs_no_exit: "make_dirs fs p \<noteq> Inl (SystemExit k)"
proof
  assume "make_dirs fs p = Inl (SystemExit k)"
  then obtain q s where "mkdir_step p q s = Inl (SystemExit k)"
    unfolding make_dirs_def by (blast dest: foldM_Inl)
  then show False
    by (auto simp: mkdir_step_def split: option.splits node.splits if_splits)
qed

lemma write_file_no_exit: "write_file fs p c \<noteq> Inl (SystemExit k)"
  by (auto simp: write_file_def)

lemma copy2_no_exit: "copy2 fs src dst \<noteq> Inl (SystemExit k)"
  using write_file_no_exit
  by (auto simp: copy2_def Let_def split: option.splits node.splits)

lemma copytree_no_exit: "copytree fs src dst \<noteq> Inl (SystemExit k)"
  using make_dirs_no_exit[of fs dst k]
  by (auto simp: copytree_def split: sum.splits)

text \<open>In one run of \<open>main\<close> the test that guards exit code 3 comes right after
  \<open>next_free_path\<close> has returned a free name, so it does not fire.\<close>

lemma main_no_exit_3:
  assumes "export fs = Inr (x, fs1)"
  shows "main (Some export) fs cwd weights_p outname \<noteq> Inl (SystemExit 3)"
proof
  assume m: "main (Some export) fs cwd weights_p outname = Inl (SystemExit 3)"
  then obtain produced where
    "copy_to_target fs1 produced (next_free_path fs1 (cwd @ [outname @ path_suffix produced]))
       = Inl (SystemExit 3)"
    using assms by (auto simp: main_def Let_def find_coreml_path_def
        split: if_splits sum.splits export_out.splits option.splits list.splits)
  then show False
    using next_free_path_free copytree_no_exit copy2_no_exit
    by (auto simp: copy_to_target_def split: if_splits)
qed

text \<open>
  Claim C9.  \<open>next_free_path\<close> returns a path that does not exist: the base path when that
  is free, and otherwise the candidate with the least number from 1 on whose name is free.
  When the file that the export names is missing, \<open>main\<close> ends with exit code 2; when the
  last step finds a directory export facing an occupied target, it ends with exit code 3.
  When \<open>main\<close> returns, the target it wrote did not exist before, and in a file system
  that is a tree every entry that was there is still there unchanged.
\<close>

theorem next_free_path_and_exit_codes:
  "\<not> exists fs (next_free_path fs base)
   \<and> (\<not> exists fs base \<longrightarrow> next_free_path fs base = base)
   \<and> (exists fs base \<longrightarrow>
        (\<exists>k \<ge> 1. next_free_path fs base = candidate (parent base) (stem base) (path_suffix base) k
           \<and> (\<forall>j. 1 \<le> j \<and> j < k \<longrightarrow>
                 exists fs (candidate (parent base) (stem base) (path_suffix base) j))))
   \<and> (exists fs weights_p \<longrightarrow> export fs = Inr (x, fs1) \<longrightarrow> find_coreml_path x = Inr produced \<longrightarrow>
        \<not> exists fs1 produced \<longrightarrow>
        main (Some export) fs cwd weights_p outname = Inl (SystemExit 2))
   \<and> (produced \<noteq> target \<longrightarrow> is_dir fs produced \<longrightarrow> exists fs target \<longrightarrow>
        copy_to_target fs produced target = Inl (SystemExit 3))
   \<and> (main (Some export) fs cwd weights_p outname = Inr (target, fs2) \<longrightarrow>
        (\<exists>x fs1 produced. export fs = Inr (x, fs1) \<and> find_coreml_path x = Inr produced
           \<and> target = next_free_path fs1 (cwd @ [outname @ path_suffix produced])
           \<and> \<not> exists fs1 target
           \<and> (is_tree fs1 \<longrightarrow> (\<forall>p n. map_of fs1 p = Some n \<longrightarrow> map_of fs2 p = Some n))))"
proof (intro conjI impI)
  show "\<not> exists fs (next_free_path fs base)" by (rule next_free_path_free)
  show "next_free_path fs base = base" if "\<not> exists fs base"
    using that by (simp add: next_free_path_def)
  show "\<exists>k \<ge> 1. next_free_path fs base = candidate (parent base) (stem base) (path_suffix base) k
           \<and> (\<forall>j. 1 \<le> j \<and> j < k \<longrightarrow>
                 exists fs (candidate (parent base) (stem base) (path_suffix base) j))"
    if "exists fs base"
    using that next_free_loop_least[of 1 fs "parent base" "stem base" "path_suffix base"]
    by (simp add: next_free_path_def)
  show "main (Some export) fs cwd weights_p outname = Inl (SystemExit 2)"
    if "exists fs weights_p" "export fs = Inr (x, fs1)" "find_coreml_path x = Inr produced"
      "\<not> exists fs1 produced"
    using that by (simp add: main_def)
  show "copy_to_target fs produced target = Inl (SystemExit 3)"
    if "produced \<noteq> target" "is_dir fs produced" "exists fs target"
    using that by (simp add: copy_to_target_def)
  show "\<exists>x fs1 produced. export fs = Inr (x, fs1) \<and> find_coreml_path x = Inr produced
           \<and> target = next_free_path fs1 (cwd @ [outname @ path_suffix produced])
           \<and> \<not> exists fs1 target
           \<and> (is_tree fs1 \<longrightarrow> (\<forall>p n. map_of fs1 p = Some n \<longrightarrow> map_of fs2 p = Some n))"
    if m: "main (Some export) fs cwd weights_p outname = Inr (target, fs2)"
  proof -
    from m obtain x fs1 produced where
      e: "export fs = Inr (x, fs1)" and f: "find_coreml_path x = Inr produced" and
      tg: "target = next_free_path fs1 (cwd @ [outname @ path_suffix produced])" and
      c: "copy_to_target fs1 produced target = Inr fs2"
      by (auto simp: main_def Let_def split: if_splits sum.splits)
    have ne: "\<not> exists fs1 target" unfolding tg by (rule next_free_path_free)
    have "map_of fs2 p = Some n" if "is_tree fs1" "map_of fs1 p = Some n" for p n
      using copy_to_target_keeps[OF that(1) ne c that(2)] .
    then show ?thesis using e f tg ne by blast
  qed
qed

text \<open>A working directory \<open>/w\<close> where \<open>coreml.mlpackage\<close> and \<open>coreml_1.mlpackage\<close> are
  taken, and the same directory after the export has been copied to the next free name.\<close>

definition pkg_tree :: filesystem where
  "pkg_tree =
     [([], Dir),
      ([''w''], Dir),
      ([''w'', ''best.pt''], File (Bytes ''pt'')),
      ([''w'', ''best.mlpackage''], Dir),
      ([''w'', ''best.mlpackage'', ''Manifest.json''], File (Text ''{}'')),
      ([''w'', ''coreml.mlpackage''], Dir),
      ([''w'', ''coreml_1.mlpackage''], Dir)]"

definition pkg_tree_after :: filesystem where
  "pkg_tree_after =
     pkg_tree @
     [([''w'', ''coreml_2.mlpackage''], Dir),
      ([''w'', ''coreml_2.mlpackage'', ''Manifest.json''], File (Text ''{}''))]"

theorem next_free_path_and_exit_codes_witness:
  "exists pkg_tree [''w'', ''coreml.mlpackage'']
   \<and> next_free_path pkg_tree [''w'', ''coreml.mlpackage''] = [''w'', ''coreml_2.mlpackage'']
   \<and> \<not> exists pkg_tree (next_free_path pkg_tree [''w'', ''coreml.mlpackage''])
   \<and> \<not> exists pkg_tree [''w'', ''fresh.mlmodel'']
   \<and> next_free_path pkg_tree [''w'', ''fresh.mlmodel''] = [''w'', ''fresh.mlmodel'']
   \<and> main (Some (\<lambda>fs. Inr (OnePath [''w'', ''best.mlmodel''], fs))) pkg_tree [''w'']
        [''w'', ''best.pt''] ''coreml'' = Inl (SystemExit 2)
   \<and> copy_to_target pkg_tree [''w'', ''best.mlpackage''] [''w'', ''coreml.mlpackage'']
        = Inl (SystemExit 3)
   \<and> is_tree pkg_tree
   \<and> main (Some (\<lambda>fs. Inr (OnePath [''w'', ''best.mlpackage''], fs))) pkg_tree [''w'']
        [''w'', ''best.pt''] ''coreml'' = Inr ([''w'', ''coreml_2.mlpackage''], pkg_tree_after)
   \<and> map_of pkg_tree_after [''w'', ''coreml.mlpackage''] = Some Dir"
proof -
  let ?e2 = "\<lambda>fs :: filesystem. Inr (OnePath [''w'', ''best.mlmodel''], fs) :: error + export_out \<times> filesystem"
  have a: "exists pkg_tree [''w'', ''coreml.mlpackage'']" by code_simp
  have b: "next_free_path pkg_tree [''w'', ''coreml.mlpackage''] = [''w'', ''coreml_2.mlpackage'']"
    by code_simp
  have c: "\<not> exists pkg_tree (next_free_path pkg_tree [''w'', ''coreml.mlpackage''])"
    by (rule next_free_path_and_exit_codes[THEN conjunct1])
  have d: "\<not> exists pkg_tree [''w'', ''fresh.mlmodel'']" by code_simp
  have e: "next_free_path pkg_tree [''w'', ''fresh.mlmodel''] = [''w'', ''fresh.mlmodel'']"
    by (rule next_free_path_and_exit_codes[THEN conjunct2, THEN conjunct1, THEN mp, OF d])
  have w: "exists pkg_tree [''w'', ''best.pt'']" by code_simp
  have np: "\<not> exists pkg_tree [''w'', ''best.mlmodel'']" by code_simp
  have fc: "find_coreml_path (OnePath [''w'', ''best.mlmodel'']) = Inr [''w'', ''best.mlmodel'']"
    by code_simp
  have f: "main (Some ?e2) pkg_tree [''w''] [''w'', ''best.pt''] ''coreml'' = Inl (SystemExit 2)"
    by (rule next_free_path_and_exit_codes[where export = ?e2,
          THEN conjunct2, THEN conjunct2, THEN conjunct2, THEN conjunct1,
          THEN mp, THEN mp, THEN mp, THEN mp, OF w refl fc np])
  have ne: "[''w'', ''best.mlpackage''] \<noteq> [''w'', ''coreml.mlpackage'']" by simp
  have pd: "is_dir pkg_tree [''w'', ''best.mlpackage'']" by code_simp
  have g: "copy_to_target pkg_tree [''w'', ''best.mlpackage''] [''w'', ''coreml.mlpackage'']
        = Inl (SystemExit 3)"
    by (rule next_free_path_and_exit_codes[
          THEN conjunct2, THEN conjunct2, THEN conjunct2, THEN conjunct2, THEN conjunct1,
          THEN mp, THEN mp, THEN mp, OF ne pd a])
  have h: "is_tree pkg_tree" by code_simp
  have i: "main (Some (\<lambda>fs. Inr (OnePath [''w'', ''best.mlpackage''], fs))) pkg_tree [''w'']
        [''w'', ''best.pt''] ''coreml'' = Inr ([''w'', ''coreml_2.mlpackage''], pkg_tree_after)"
    by code_simp
  have j: "map_of pkg_tree_after [''w'', ''coreml.mlpackage''] = Some Dir" by code_simp
  show ?thesis
    by (intro conjI) (rule a b c d e f g h i j)+
qed

end
